theory Spec2Isabelle
  imports Main "HOL-Library.Word" "HOL-Library.List_Lexorder"
begin

section \<open>Data model\<close>

text \<open>
  The skiplist of \<^verbatim>\<open>src/skl/skl_mmap.go\<close> keeps its nodes inside an arena and links them by
  32-bit offsets. A Go \<^verbatim>\<open>*node\<close> is a view into the arena's buffer at an offset, so the model
  represents a node pointer by that offset, with \<open>0\<close> for \<^verbatim>\<open>nil\<close>. Keys are byte strings,
  values are \<^verbatim>\<open>uint64\<close>. Every panic of the Go code is a value of type \<open>error\<close>; a loop
  that may run forever is a \<^theory_text>\<open>partial_function\<close> whose value \<open>None\<close> means that it
  does not return.
\<close>

datatype error =
    ArenaFull          \<comment> \<open>the arena's capacity is exhausted (fatal)\<close>
  | InvalidSize        \<comment> \<open>a negative arena size\<close>
  | NilDeref           \<comment> \<open>a field of a \<^verbatim>\<open>nil\<close> node is read or written\<close>
  | IndexOutOfRange    \<comment> \<open>an array index outside the array\<close>
  | SliceBounds        \<comment> \<open>a slice expression outside the slice\<close>
  | AssertFailed       \<comment> \<open>\<^verbatim>\<open>y.AssertTrue\<close> on a false condition (fatal)\<close>
  | InvalidNode        \<comment> \<open>a node view where no node was allocated, or a tower slot past the allocated ones\<close>

text \<open>
  Modelled from the spec: the declaration of \<^verbatim>\<open>node\<close> is not in \<^verbatim>\<open>skl_mmap.go\<close>. The spec
  gives its layout: a 64-bit value, a 32-bit key offset, a 16-bit key size, a 16-bit
  height and a tower of 32-bit next-offsets of which only the first \<^verbatim>\<open>height\<close> slots are
  allocated. The list \<open>tower\<close> holds the allocated slots.
\<close>

record node =
  nvalue :: "64 word"
  keyOffset :: "32 word"
  keySize :: "16 word"
  nheight :: "16 word"
  tower :: "32 word list"

text \<open>
  Modelled from the spec: \<^verbatim>\<open>ArenaMmap\<close> is not in \<^verbatim>\<open>skl_mmap.go\<close>. The spec describes a
  buffer of fixed capacity with a cursor that starts at 1 (offset 0 is the null offset)
  and only grows. Node regions are kept as typed views (\<open>nodes\<close>), key bytes in \<open>buf\<close>.
\<close>

record ArenaMmap =
  cursor :: nat
  capacity :: nat
  nodes :: "32 word \<Rightarrow> node option"
  buf :: "nat \<Rightarrow> 8 word"

record SkiplistMmap =
  height :: int
  head :: "32 word"
  ref :: int
  arena :: ArenaMmap

text \<open>
  \<^verbatim>\<open>IteratorMmap\<close> holds a pointer to its list and the current node \<^verbatim>\<open>n\<close>. The list is shared
  state, so the operations of the iterator take it as an argument; the record keeps the
  current node.
\<close>

record IteratorMmap =
  cur :: "32 word"

section \<open>Constants\<close>

text \<open>
  Modelled from the spec: \<^verbatim>\<open>maxHeight\<close> (the spec's \<^verbatim>\<open>H_MAX\<close>, default 20) and
  \<^verbatim>\<open>heightIncrease\<close> (the threshold of the geometric height distribution, a third of the
  32-bit range) are declared outside \<^verbatim>\<open>skl_mmap.go\<close>. No proof below depends on the value of
  \<open>heightIncrease\<close>.
\<close>

definition maxHeight :: int where
  "maxHeight = 20"

definition heightIncrease :: "32 word" where
  "heightIncrease = 1431655765"

definition headerSize :: nat where
  "headerSize = 16"

definition offsetSize :: nat where
  "offsetSize = 4"

definition nodeAlign :: nat where
  "nodeAlign = 8"

section \<open>Library functions of Go\<close>

text \<open>\<^verbatim>\<open>bytes.Compare\<close>: lexicographic comparison of byte strings, \<open>-1\<close>, \<open>0\<close> or \<open>1\<close>.\<close>

fun bytes_compare :: "8 word list \<Rightarrow> 8 word list \<Rightarrow> int" where
  "bytes_compare [] [] = 0"
| "bytes_compare [] (y # ys) = - 1"
| "bytes_compare (x # xs) [] = 1"
| "bytes_compare (x # xs) (y # ys) =
     (if x < y then - 1 else if y < x then 1 else bytes_compare xs ys)"

text \<open>
  The builtin \<^verbatim>\<open>copy(dst, src)\<close> on two slices that do not overlap: the contents of
  \<^verbatim>\<open>dst\<close> afterwards.
\<close>

definition copy_slice :: "'a list \<Rightarrow> 'a list \<Rightarrow> 'a list" where
  "copy_slice dst src = take (length dst) src @ drop (length src) dst"

text \<open>Indexing an array or slice with a Go \<^verbatim>\<open>int\<close>: out of range panics.\<close>

definition arr_get :: "'a list \<Rightarrow> int \<Rightarrow> error + 'a" where
  "arr_get xs i = (if 0 \<le> i \<and> i < int (length xs) then Inr (xs ! nat i) else Inl IndexOutOfRange)"

definition arr_set :: "'a list \<Rightarrow> int \<Rightarrow> 'a \<Rightarrow> error + 'a list" where
  "arr_set xs i v =
     (if 0 \<le> i \<and> i < int (length xs) then Inr (xs[nat i := v]) else Inl IndexOutOfRange)"

section \<open>zeroOut\<close>

text \<open>
  Go's \<^verbatim>\<open>int\<close> has 32 or 64 bits, depending on the build. The width \<open>w\<close> is a parameter
  of the functions that compute with an \<^verbatim>\<open>int\<close> that can overflow; \<open>int_wrap w\<close> is the
  value an \<^verbatim>\<open>int\<close> of \<open>w\<close> bits holds after an arithmetic operation with the exact
  result \<open>x\<close>: the two's complement reading of the low \<open>w\<close> bits.
\<close>

definition int_wrap :: "nat \<Rightarrow> int \<Rightarrow> int" where
  "int_wrap w x = (x + 2 ^ (w - 1)) mod 2 ^ w - 2 ^ (w - 1)"

text \<open>
  \<^verbatim>\<open>zeroOut(data, offset)\<close> reslices \<^verbatim>\<open>data\<close> from \<^verbatim>\<open>offset\<close>, clears the first byte and then
  doubles the cleared prefix by copying it behind itself. The function returns the
  contents of the caller's slice afterwards. The loop variable \<^verbatim>\<open>bp\<close> is an \<^verbatim>\<open>int\<close>, and
  \<^verbatim>\<open>bp *= 2\<close> wraps: once \<^verbatim>\<open>bp\<close> is negative it is still below \<^verbatim>\<open>len(data)\<close>, and
  \<^verbatim>\<open>data[bp:]\<close> panics.
\<close>

partial_function (option) zeroOut_loop ::
    "nat \<Rightarrow> 8 word list \<Rightarrow> int \<Rightarrow> (error + 8 word list) option" where
  "zeroOut_loop w data bp =
     (if bp < int (length data)
      then if bp < 0 then Some (Inl SliceBounds)
           else zeroOut_loop w
                  (take (nat bp) data @ copy_slice (drop (nat bp) data) (take (nat bp) data))
                  (int_wrap w (bp * 2))
      else Some (Inr data))"

definition zeroOut :: "nat \<Rightarrow> 8 word list \<Rightarrow> int \<Rightarrow> (error + 8 word list) option" where
  "zeroOut w data offset =
     (if offset < 0 \<or> int (length data) < offset then Some (Inl SliceBounds)
      else let pre = take (nat offset) data; data' = drop (nat offset) data in
        if length data' = 0 then Some (Inl IndexOutOfRange)
        else (case zeroOut_loop w (data'[0 := 0]) 1 of
                None \<Rightarrow> None
              | Some (Inl e) \<Rightarrow> Some (Inl e)
              | Some (Inr r) \<Rightarrow> Some (Inr (pre @ r))))"

section \<open>The arena\<close>

text \<open>
  Modelled from the spec: the functions of \<^verbatim>\<open>ArenaMmap\<close> are not in \<^verbatim>\<open>skl_mmap.go\<close>.
  \<open>reserve\<close> advances the cursor by the size, from the next multiple of the alignment, and
  returns the start of the region; it fails when the region would end past the capacity.
\<close>

definition reserve :: "ArenaMmap \<Rightarrow> nat \<Rightarrow> nat \<Rightarrow> error + (nat \<times> ArenaMmap)" where
  "reserve a sz align =
     (let start = ((cursor a + align - 1) div align) * align in
      if start + sz > capacity a then Inl ArenaFull
      else Inr (start, a\<lparr>cursor := start + sz\<rparr>))"

definition newArenaMmap :: "int \<Rightarrow> error + ArenaMmap" where
  "newArenaMmap sz =
     (if sz < 0 then Inl InvalidSize
      else Inr \<lparr>cursor = 1, capacity = nat sz, nodes = (\<lambda>_. None), buf = (\<lambda>_. 0)\<rparr>)"

text \<open>
  \<open>putNode\<close> reserves the header and \<^verbatim>\<open>height\<close> tower slots, aligned to 8; the region is
  observed as zero.
\<close>

definition putNode :: "ArenaMmap \<Rightarrow> int \<Rightarrow> error + (32 word \<times> ArenaMmap)" where
  "putNode a h =
     (case reserve a (headerSize + nat h * offsetSize) nodeAlign of
        Inl e \<Rightarrow> Inl e
      | Inr (m, a') \<Rightarrow>
          Inr (of_nat m,
               a'\<lparr>nodes := (nodes a')(of_nat m \<mapsto>
                     \<lparr>nvalue = 0, keyOffset = 0, keySize = 0, nheight = 0,
                      tower = replicate (nat h) 0\<rparr>)\<rparr>))"

definition putKey :: "ArenaMmap \<Rightarrow> 8 word list \<Rightarrow> error + (32 word \<times> ArenaMmap)" where
  "putKey a key =
     (case reserve a (length key) 1 of
        Inl e \<Rightarrow> Inl e
      | Inr (m, a') \<Rightarrow>
          Inr (of_nat m,
               a'\<lparr>buf := (\<lambda>i. if m \<le> i \<and> i < m + length key then key ! (i - m) else buf a' i)\<rparr>))"

definition getNode :: "ArenaMmap \<Rightarrow> 32 word \<Rightarrow> 32 word" where
  "getNode a offset = offset"

definition getNodeOffset :: "ArenaMmap \<Rightarrow> 32 word \<Rightarrow> 32 word" where
  "getNodeOffset a nd = nd"

definition getKey :: "ArenaMmap \<Rightarrow> 32 word \<Rightarrow> 16 word \<Rightarrow> error + 8 word list" where
  "getKey a offset sz =
     (if unat offset + unat sz > capacity a then Inl SliceBounds
      else Inr (map (buf a) [unat offset ..< unat offset + unat sz]))"

definition size_arena :: "ArenaMmap \<Rightarrow> int" where
  "size_arena a = int (cursor a)"

section \<open>Nodes\<close>

text \<open>Reading the node a pointer refers to.\<close>

definition deref :: "ArenaMmap \<Rightarrow> 32 word \<Rightarrow> error + node" where
  "deref a p =
     (if p = 0 then Inl NilDeref
      else case nodes a p of None \<Rightarrow> Inl InvalidNode | Some nd \<Rightarrow> Inr nd)"

definition store :: "ArenaMmap \<Rightarrow> 32 word \<Rightarrow> node \<Rightarrow> ArenaMmap" where
  "store a p nd = a\<lparr>nodes := (nodes a)(p \<mapsto> nd)\<rparr>"

text \<open>
  Modelled from the spec: \<^verbatim>\<open>getNextOffset\<close> and \<^verbatim>\<open>casNextOffset\<close> are not in
  \<^verbatim>\<open>skl_mmap.go\<close>; they load and compare-and-swap \<^verbatim>\<open>tower[h]\<close>.
\<close>

definition getNextOffset :: "node \<Rightarrow> int \<Rightarrow> error + 32 word" where
  "getNextOffset nd h =
     (if h < 0 \<or> maxHeight \<le> h then Inl IndexOutOfRange
      else if length (tower nd) \<le> nat h then Inl InvalidNode
      else Inr (tower nd ! nat h))"

definition setTower :: "ArenaMmap \<Rightarrow> 32 word \<Rightarrow> int \<Rightarrow> 32 word \<Rightarrow> error + ArenaMmap" where
  "setTower a p h v =
     (case deref a p of
        Inl e \<Rightarrow> Inl e
      | Inr nd \<Rightarrow>
          if h < 0 \<or> maxHeight \<le> h then Inl IndexOutOfRange
          else if length (tower nd) \<le> nat h then Inl InvalidNode
          else Inr (store a p (nd\<lparr>tower := (tower nd)[nat h := v]\<rparr>)))"

definition casNextOffset ::
    "ArenaMmap \<Rightarrow> 32 word \<Rightarrow> int \<Rightarrow> 32 word \<Rightarrow> 32 word \<Rightarrow> error + (bool \<times> ArenaMmap)" where
  "casNextOffset a p h old val =
     (case deref a p of
        Inl e \<Rightarrow> Inl e
      | Inr nd \<Rightarrow>
          (case getNextOffset nd h of
             Inl e \<Rightarrow> Inl e
           | Inr c \<Rightarrow>
               if c = old then Inr (True, store a p (nd\<lparr>tower := (tower nd)[nat h := val]\<rparr>))
               else Inr (False, a)))"

text \<open>
  The overwrite of \<^verbatim>\<open>Put\<close>, \<^verbatim>\<open>prev[i].value = uid\<close>: a plain assignment to the value word
  of the node (the call of \<^verbatim>\<open>setValue\<close> beside it is commented out in the source). With
  one goroutine it replaces the word.
\<close>

definition assignValue :: "ArenaMmap \<Rightarrow> 32 word \<Rightarrow> 64 word \<Rightarrow> error + ArenaMmap" where
  "assignValue a p uid =
     (case deref a p of
        Inl e \<Rightarrow> Inl e
      | Inr nd \<Rightarrow> Inr (store a p (nd\<lparr>nvalue := uid\<rparr>)))"

definition getValue :: "ArenaMmap \<Rightarrow> 32 word \<Rightarrow> error + 64 word" where
  "getValue a p = (case deref a p of Inl e \<Rightarrow> Inl e | Inr nd \<Rightarrow> Inr (nvalue nd))"

definition keyMmap :: "ArenaMmap \<Rightarrow> 32 word \<Rightarrow> error + 8 word list" where
  "keyMmap a p =
     (case deref a p of
        Inl e \<Rightarrow> Inl e
      | Inr nd \<Rightarrow> getKey a (keyOffset nd) (keySize nd))"

definition newNodeMmap ::
    "ArenaMmap \<Rightarrow> 8 word list \<Rightarrow> 64 word \<Rightarrow> int \<Rightarrow> error + (32 word \<times> ArenaMmap)" where
  "newNodeMmap a key uid h =
     (case putNode a h of
        Inl e \<Rightarrow> Inl e
      | Inr (offset, a1) \<Rightarrow>
          (case deref a1 (getNode a1 offset) of
             Inl e \<Rightarrow> Inl e
           | Inr nd \<Rightarrow>
               (case putKey a1 key of
                  Inl e \<Rightarrow> Inl e
                | Inr (ko, a2) \<Rightarrow>
                    Inr (getNode a2 offset,
                         store a2 (getNode a2 offset)
                           (nd\<lparr>keyOffset := ko,
                               keySize := of_nat (length key),
                               nheight := of_int h,
                               nvalue := uid\<rparr>)))))"

section \<open>The skiplist\<close>

definition NewSkiplistMmap :: "int \<Rightarrow> error + SkiplistMmap" where
  "NewSkiplistMmap arenaSize =
     (case newArenaMmap arenaSize of
        Inl e \<Rightarrow> Inl e
      | Inr a \<Rightarrow>
          (case newNodeMmap a [] 0 maxHeight of
             Inl e \<Rightarrow> Inl e
           | Inr (h, a') \<Rightarrow> Inr \<lparr>height = 1, head = h, ref = 1, arena = a'\<rparr>))"

text \<open>
  \<^verbatim>\<open>randomHeight\<close> draws from \<^verbatim>\<open>z.FastRand()\<close>; the model takes the draws of one call as the
  sequence \<open>rnd\<close>.
\<close>

function randomHeight_loop :: "(nat \<Rightarrow> 32 word) \<Rightarrow> int \<Rightarrow> nat \<Rightarrow> int" where
  "randomHeight_loop rnd h i =
     (if h < maxHeight \<and> rnd i \<le> heightIncrease then randomHeight_loop rnd (h + 1) (i + 1)
      else h)"
  by pat_completeness auto
termination
  by (relation "measure (\<lambda>(rnd, h, i). nat (maxHeight - h))") auto

definition randomHeight :: "(nat \<Rightarrow> 32 word) \<Rightarrow> int" where
  "randomHeight rnd = randomHeight_loop rnd 1 0"

definition getNext :: "SkiplistMmap \<Rightarrow> 32 word \<Rightarrow> int \<Rightarrow> error + 32 word" where
  "getNext s nd h =
     (case deref (arena s) nd of
        Inl e \<Rightarrow> Inl e
      | Inr x \<Rightarrow>
          (case getNextOffset x h of
             Inl e \<Rightarrow> Inl e
           | Inr off \<Rightarrow> Inr (getNode (arena s) off)))"

partial_function (option) findNear_loop ::
    "SkiplistMmap \<Rightarrow> 8 word list \<Rightarrow> bool \<Rightarrow> bool \<Rightarrow> 32 word \<Rightarrow> int
       \<Rightarrow> (error + 32 word \<times> bool) option" where
  "findNear_loop s key less' allowEqual x level =
     (case getNext s x level of
        Inl e \<Rightarrow> Some (Inl e)
      | Inr next \<Rightarrow>
          if next = 0 then
            (if level > 0 then findNear_loop s key less' allowEqual x (level - 1)
             else if \<not> less' then Some (Inr (0, False))
             else if x = head s then Some (Inr (0, False))
             else Some (Inr (x, False)))
          else
            (case keyMmap (arena s) next of
               Inl e \<Rightarrow> Some (Inl e)
             | Inr nextKey \<Rightarrow>
                 (let cmp = bytes_compare key nextKey in
                  if cmp > 0 then findNear_loop s key less' allowEqual next level
                  else if cmp = 0 then
                    (if allowEqual then Some (Inr (next, True))
                     else if \<not> less' then
                       (case getNext s next 0 of
                          Inl e \<Rightarrow> Some (Inl e)
                        | Inr r \<Rightarrow> Some (Inr (r, False)))
                     else if level > 0 then findNear_loop s key less' allowEqual x (level - 1)
                     else if x = head s then Some (Inr (0, False))
                     else Some (Inr (x, False)))
                  else if level > 0 then findNear_loop s key less' allowEqual x (level - 1)
                  else if \<not> less' then Some (Inr (next, False))
                  else if x = head s then Some (Inr (0, False))
                  else Some (Inr (x, False)))))"

definition findNear ::
    "SkiplistMmap \<Rightarrow> 8 word list \<Rightarrow> bool \<Rightarrow> bool \<Rightarrow> (error + 32 word \<times> bool) option" where
  "findNear s key less' allowEqual = findNear_loop s key less' allowEqual (head s) (height s - 1)"

partial_function (option) findSpliceForLevel ::
    "SkiplistMmap \<Rightarrow> 8 word list \<Rightarrow> 32 word \<Rightarrow> int \<Rightarrow> (error + 32 word \<times> 32 word) option" where
  "findSpliceForLevel s key before level =
     (case getNext s before level of
        Inl e \<Rightarrow> Some (Inl e)
      | Inr next \<Rightarrow>
          if next = 0 then Some (Inr (before, next))
          else
            (case keyMmap (arena s) next of
               Inl e \<Rightarrow> Some (Inl e)
             | Inr nextKey \<Rightarrow>
                 (let cmp = bytes_compare key nextKey in
                  if cmp = 0 then Some (Inr (next, next))
                  else if cmp < 0 then Some (Inr (before, next))
                  else findSpliceForLevel s key next level)))"

text \<open>
  \<^verbatim>\<open>Put\<close>, first loop: the splice of every level below the list's height, from the top
  down. It ends the call when it finds the key (the value is overwritten in place).
\<close>

datatype search_result =
    Overwritten SkiplistMmap
  | Splices "32 word list" "32 word list"

function Put_search ::
    "SkiplistMmap \<Rightarrow> 8 word list \<Rightarrow> 64 word \<Rightarrow> 32 word list \<Rightarrow> 32 word list \<Rightarrow> int
       \<Rightarrow> (error + search_result) option" where
  "Put_search s key uid prev next i =
     (if i \<ge> 0 then
        (case arr_get prev (i + 1) of
           Inl e \<Rightarrow> Some (Inl e)
         | Inr before \<Rightarrow>
             (case findSpliceForLevel s key before i of
                None \<Rightarrow> None
              | Some (Inl e) \<Rightarrow> Some (Inl e)
              | Some (Inr (p, n)) \<Rightarrow>
                  (case arr_set prev i p of
                     Inl e \<Rightarrow> Some (Inl e)
                   | Inr prev' \<Rightarrow>
                       (case arr_set next i n of
                          Inl e \<Rightarrow> Some (Inl e)
                        | Inr next' \<Rightarrow>
                            if p = n then
                              (case assignValue (arena s) p uid of
                                 Inl e \<Rightarrow> Some (Inl e)
                               | Inr a' \<Rightarrow> Some (Inr (Overwritten (s\<lparr>arena := a'\<rparr>))))
                            else Put_search s key uid prev' next' (i - 1)))))
      else Some (Inr (Splices prev next)))"
  by pat_completeness auto
termination
  by (relation "measure (\<lambda>(s, key, uid, prev, next, i). nat (i + 1))") auto

text \<open>
  Raising the list's height by compare-and-swap. Without another writer the swap
  succeeds at the first attempt; the retry is modelled all the same.
\<close>

partial_function (option) Put_raise :: "SkiplistMmap \<Rightarrow> int \<Rightarrow> int \<Rightarrow> SkiplistMmap option" where
  "Put_raise s h listHeight =
     (if h > listHeight then
        (if height s = listHeight then Some (s\<lparr>height := h\<rparr>)
         else Put_raise s h (height s))
      else Some s)"

text \<open>
  The block \<^verbatim>\<open>if prev[i] == nil\<close> of the linking loop: the splice of a level above the old
  height is searched from the head.
\<close>

definition Put_fill ::
    "SkiplistMmap \<Rightarrow> 8 word list \<Rightarrow> int \<Rightarrow> 32 word list \<Rightarrow> 32 word list
       \<Rightarrow> (error + 32 word list \<times> 32 word list) option" where
  "Put_fill s key i prev next =
     (case arr_get prev i of
        Inl e \<Rightarrow> Some (Inl e)
      | Inr p \<Rightarrow>
          if p = 0 then
            (if \<not> (i > 1) then Some (Inl AssertFailed)
             else
               (case findSpliceForLevel s key (head s) i of
                  None \<Rightarrow> None
                | Some (Inl e) \<Rightarrow> Some (Inl e)
                | Some (Inr (p', n')) \<Rightarrow>
                    (case arr_set prev i p' of
                       Inl e \<Rightarrow> Some (Inl e)
                     | Inr prev' \<Rightarrow>
                         (case arr_set next i n' of
                            Inl e \<Rightarrow> Some (Inl e)
                          | Inr next' \<Rightarrow>
                              if \<not> (p' \<noteq> n') then Some (Inl AssertFailed)
                              else Some (Inr (prev', next'))))))
          else Some (Inr (prev, next)))"

datatype link_result =
    Returned SkiplistMmap
  | Linked SkiplistMmap "32 word list" "32 word list"

text \<open>The inner loop of \<^verbatim>\<open>Put\<close>: link \<open>x\<close> at level \<open>i\<close>, retrying when the swap fails.\<close>

partial_function (option) Put_link ::
    "SkiplistMmap \<Rightarrow> 8 word list \<Rightarrow> 64 word \<Rightarrow> 32 word \<Rightarrow> int \<Rightarrow> 32 word list \<Rightarrow> 32 word list
       \<Rightarrow> (error + link_result) option" where
  "Put_link s key uid x i prev next =
     (case Put_fill s key i prev next of
        None \<Rightarrow> None
      | Some (Inl e) \<Rightarrow> Some (Inl e)
      | Some (Inr (prev1, next1)) \<Rightarrow>
          (case arr_get next1 i of
             Inl e \<Rightarrow> Some (Inl e)
           | Inr ni \<Rightarrow>
               (let nextOffset = getNodeOffset (arena s) ni in
                case setTower (arena s) x i nextOffset of
                  Inl e \<Rightarrow> Some (Inl e)
                | Inr a1 \<Rightarrow>
                    (case arr_get prev1 i of
                       Inl e \<Rightarrow> Some (Inl e)
                     | Inr pi \<Rightarrow>
                         (case casNextOffset a1 pi i nextOffset (getNodeOffset a1 x) of
                            Inl e \<Rightarrow> Some (Inl e)
                          | Inr (swapped, a2) \<Rightarrow>
                              if swapped then Some (Inr (Linked (s\<lparr>arena := a2\<rparr>) prev1 next1))
                              else
                              (case findSpliceForLevel (s\<lparr>arena := a2\<rparr>) key pi i of
                                 None \<Rightarrow> None
                               | Some (Inl e) \<Rightarrow> Some (Inl e)
                               | Some (Inr (p, n)) \<Rightarrow>
                                   (case arr_set prev1 i p of
                                      Inl e \<Rightarrow> Some (Inl e)
                                    | Inr prev2 \<Rightarrow>
                                        (case arr_set next1 i n of
                                           Inl e \<Rightarrow> Some (Inl e)
                                         | Inr next2 \<Rightarrow>
                                             if p = n then
                                               (if \<not> (i = 0) then Some (Inl AssertFailed)
                                                else
                                                  (case assignValue a2 p uid of
                                                     Inl e \<Rightarrow> Some (Inl e)
                                                   | Inr a3 \<Rightarrow>
                                                       Some (Inr (Returned (s\<lparr>arena := a3\<rparr>)))))
                                             else
                                               Put_link (s\<lparr>arena := a2\<rparr>) key uid x i
                                                 prev2 next2))))))))"

text \<open>The outer loop of the linking phase: levels \<open>0\<close> to \<open>height - 1\<close>.\<close>

function Put_levels ::
    "SkiplistMmap \<Rightarrow> 8 word list \<Rightarrow> 64 word \<Rightarrow> 32 word \<Rightarrow> int \<Rightarrow> int \<Rightarrow> 32 word list
       \<Rightarrow> 32 word list \<Rightarrow> (error + SkiplistMmap) option" where
  "Put_levels s key uid x h i prev next =
     (if i < h then
        (case Put_link s key uid x i prev next of
           None \<Rightarrow> None
         | Some (Inl e) \<Rightarrow> Some (Inl e)
         | Some (Inr (Returned s')) \<Rightarrow> Some (Inr s')
         | Some (Inr (Linked s' prev' next')) \<Rightarrow> Put_levels s' key uid x h (i + 1) prev' next')
      else Some (Inr s))"
  by pat_completeness auto
termination
  by (relation "measure (\<lambda>(s, key, uid, x, h, i, prev, next). nat (h - i))") auto

definition Put ::
    "SkiplistMmap \<Rightarrow> 8 word list \<Rightarrow> 64 word \<Rightarrow> (nat \<Rightarrow> 32 word) \<Rightarrow> (error + SkiplistMmap) option" where
  "Put s key uid rnd =
     (let listHeight = height s;
          prev0 = replicate (nat (maxHeight + 1)) (0 :: 32 word);
          next0 = replicate (nat (maxHeight + 1)) (0 :: 32 word) in
      case arr_set prev0 listHeight (head s) of
        Inl e \<Rightarrow> Some (Inl e)
      | Inr prev \<Rightarrow>
          (case arr_set next0 listHeight 0 of
             Inl e \<Rightarrow> Some (Inl e)
           | Inr next \<Rightarrow>
               (case Put_search s key uid prev next (listHeight - 1) of
                  None \<Rightarrow> None
                | Some (Inl e) \<Rightarrow> Some (Inl e)
                | Some (Inr (Overwritten s')) \<Rightarrow> Some (Inr s')
                | Some (Inr (Splices prev' next')) \<Rightarrow>
                    (let h = randomHeight rnd in
                     case newNodeMmap (arena s) key uid h of
                       Inl e \<Rightarrow> Some (Inl e)
                     | Inr (x, a') \<Rightarrow>
                         (case Put_raise (s\<lparr>arena := a'\<rparr>) h (height s) of
                            None \<Rightarrow> None
                          | Some s1 \<Rightarrow> Put_levels s1 key uid x h 0 prev' next')))))"

partial_function (option) findLast_loop ::
    "SkiplistMmap \<Rightarrow> 32 word \<Rightarrow> int \<Rightarrow> (error + 32 word) option" where
  "findLast_loop s n level =
     (case getNext s n level of
        Inl e \<Rightarrow> Some (Inl e)
      | Inr next \<Rightarrow>
          if next \<noteq> 0 then findLast_loop s next level
          else if level = 0 then (if n = head s then Some (Inr 0) else Some (Inr n))
          else findLast_loop s n (level - 1))"

definition findLast :: "SkiplistMmap \<Rightarrow> (error + 32 word) option" where
  "findLast s = findLast_loop s (head s) (height s - 1)"

definition Empty :: "SkiplistMmap \<Rightarrow> (error + bool) option" where
  "Empty s =
     (case findLast s of
        None \<Rightarrow> None
      | Some (Inl e) \<Rightarrow> Some (Inl e)
      | Some (Inr n) \<Rightarrow> Some (Inr (n = 0)))"

definition Get :: "SkiplistMmap \<Rightarrow> 8 word list \<Rightarrow> (error + 64 word) option" where
  "Get s key =
     (case findNear s key False True of
        None \<Rightarrow> None
      | Some (Inl e) \<Rightarrow> Some (Inl e)
      | Some (Inr (n, _)) \<Rightarrow>
          if n = 0 then Some (Inr 0)
          else
            (case keyMmap (arena s) n of
               Inl e \<Rightarrow> Some (Inl e)
             | Inr nextKey \<Rightarrow>
                 if \<not> (key = nextKey) then Some (Inr 0)
                 else
                   (case getValue (arena s) n of
                      Inl e \<Rightarrow> Some (Inl e)
                    | Inr v \<Rightarrow> Some (Inr v))))"

definition MemSize :: "SkiplistMmap \<Rightarrow> int" where
  "MemSize s = size_arena (arena s)"

section \<open>The iterator\<close>

definition NewIterator :: "SkiplistMmap \<Rightarrow> SkiplistMmap \<times> IteratorMmap" where
  "NewIterator s = (s\<lparr>ref := ref s + 1\<rparr>, \<lparr>cur = 0\<rparr>)"

definition Valid :: "IteratorMmap \<Rightarrow> bool" where
  "Valid it = (cur it \<noteq> 0)"

definition Key :: "SkiplistMmap \<Rightarrow> IteratorMmap \<Rightarrow> error + 8 word list" where
  "Key s it = keyMmap (arena s) (cur it)"

definition Value :: "SkiplistMmap \<Rightarrow> IteratorMmap \<Rightarrow> error + 64 word" where
  "Value s it = getValue (arena s) (cur it)"

definition Next :: "SkiplistMmap \<Rightarrow> IteratorMmap \<Rightarrow> error + IteratorMmap" where
  "Next s it =
     (if \<not> Valid it then Inl AssertFailed
      else (case getNext s (cur it) 0 of
              Inl e \<Rightarrow> Inl e
            | Inr n \<Rightarrow> Inr (it\<lparr>cur := n\<rparr>)))"

definition Prev :: "SkiplistMmap \<Rightarrow> IteratorMmap \<Rightarrow> (error + IteratorMmap) option" where
  "Prev s it =
     (if \<not> Valid it then Some (Inl AssertFailed)
      else (case Key s it of
              Inl e \<Rightarrow> Some (Inl e)
            | Inr k \<Rightarrow>
                (case findNear s k True False of
                   None \<Rightarrow> None
                 | Some (Inl e) \<Rightarrow> Some (Inl e)
                 | Some (Inr (n, _)) \<Rightarrow> Some (Inr (it\<lparr>cur := n\<rparr>)))))"

definition Seek :: "SkiplistMmap \<Rightarrow> IteratorMmap \<Rightarrow> 8 word list \<Rightarrow> (error + IteratorMmap) option" where
  "Seek s it target =
     (case findNear s target False True of
        None \<Rightarrow> None
      | Some (Inl e) \<Rightarrow> Some (Inl e)
      | Some (Inr (n, _)) \<Rightarrow> Some (Inr (it\<lparr>cur := n\<rparr>)))"

definition SeekForPrev ::
    "SkiplistMmap \<Rightarrow> IteratorMmap \<Rightarrow> 8 word list \<Rightarrow> (error + IteratorMmap) option" where
  "SeekForPrev s it target =
     (case findNear s target True True of
        None \<Rightarrow> None
      | Some (Inl e) \<Rightarrow> Some (Inl e)
      | Some (Inr (n, _)) \<Rightarrow> Some (Inr (it\<lparr>cur := n\<rparr>)))"

definition SeekToFirst :: "SkiplistMmap \<Rightarrow> IteratorMmap \<Rightarrow> error + IteratorMmap" where
  "SeekToFirst s it =
     (case getNext s (head s) 0 of
        Inl e \<Rightarrow> Inl e
      | Inr n \<Rightarrow> Inr (it\<lparr>cur := n\<rparr>))"

definition SeekToLast :: "SkiplistMmap \<Rightarrow> IteratorMmap \<Rightarrow> (error + IteratorMmap) option" where
  "SeekToLast s it =
     (case findLast s of
        None \<Rightarrow> None
      | Some (Inl e) \<Rightarrow> Some (Inl e)
      | Some (Inr n) \<Rightarrow> Some (Inr (it\<lparr>cur := n\<rparr>)))"

section \<open>Sequences of calls\<close>

text \<open>
  A sequence of sequential \<^verbatim>\<open>Put\<close> calls: each call has its key, its value and the draws
  its \<^verbatim>\<open>randomHeight\<close> reads. A fatal error ends the sequence.
\<close>

fun Puts ::
    "SkiplistMmap \<Rightarrow> (8 word list \<times> 64 word \<times> (nat \<Rightarrow> 32 word)) list
       \<Rightarrow> (error + SkiplistMmap) option" where
  "Puts s [] = Some (Inr s)"
| "Puts s ((k, v, rnd) # ops) =
     (case Put s k v rnd of
        None \<Rightarrow> None
      | Some (Inl e) \<Rightarrow> Some (Inl e)
      | Some (Inr s') \<Rightarrow> Puts s' ops)"

text \<open>
  The value of the last \<^verbatim>\<open>Put\<close> with the key \<open>k\<close> in a sequence of calls, if there is one.
\<close>

fun last_put ::
    "(8 word list \<times> 64 word \<times> (nat \<Rightarrow> 32 word)) list \<Rightarrow> 8 word list \<Rightarrow> 64 word option" where
  "last_put [] k = None"
| "last_put ((k', v, rnd) # ops) k =
     (case last_put ops k of
        Some w \<Rightarrow> Some w
      | None \<Rightarrow> if k' = k then Some v else None)"

text \<open>
  The forward scan of a client: from the iterator's position, read the key and the
  value and call \<^verbatim>\<open>Next\<close> while the iterator is valid.
\<close>

partial_function (option) scan_loop ::
    "SkiplistMmap \<Rightarrow> IteratorMmap \<Rightarrow> (8 word list \<times> 64 word) list
       \<Rightarrow> (error + (8 word list \<times> 64 word) list \<times> IteratorMmap) option" where
  "scan_loop s it acc =
     (if Valid it then
        (case Key s it of
           Inl e \<Rightarrow> Some (Inl e)
         | Inr k \<Rightarrow>
             (case Value s it of
                Inl e \<Rightarrow> Some (Inl e)
              | Inr v \<Rightarrow>
                  (case Next s it of
                     Inl e \<Rightarrow> Some (Inl e)
                   | Inr it' \<Rightarrow> scan_loop s it' (acc @ [(k, v)]))))
      else Some (Inr (acc, it)))"

definition scan ::
    "SkiplistMmap \<Rightarrow> (error + (8 word list \<times> 64 word) list \<times> IteratorMmap) option" where
  "scan s =
     (case SeekToFirst s (snd (NewIterator s)) of
        Inl e \<Rightarrow> Some (Inl e)
      | Inr it \<Rightarrow> scan_loop s it [])"

section \<open>Abstraction and invariant\<close>

text \<open>
  The nodes a pointer can reach: from the head, by the tower slot of any level, through
  non-nil pointers.
\<close>

inductive reach :: "SkiplistMmap \<Rightarrow> 32 word \<Rightarrow> bool" where
  reach_head: "getNext s (head s) level = Inr p \<Longrightarrow> p \<noteq> 0 \<Longrightarrow> reach s p"
| reach_step: "reach s q \<Longrightarrow> getNext s q level = Inr p \<Longrightarrow> p \<noteq> 0 \<Longrightarrow> reach s p"

text \<open>The successor of node \<open>p\<close> at level \<open>L\<close>, when \<open>p\<close> is allocated with that slot.\<close>

definition nxt :: "ArenaMmap \<Rightarrow> nat \<Rightarrow> 32 word \<Rightarrow> 32 word option" where
  "nxt a L p =
     (case nodes a p of
        None \<Rightarrow> None
      | Some nd \<Rightarrow> if L < length (tower nd) then Some (tower nd ! L) else None)"

text \<open>
  \<open>seg a L p qs e\<close>: at level \<open>L\<close> the links lead from \<open>p\<close> through the nodes \<open>qs\<close>, and
  the last of them points to \<open>e\<close>.
\<close>

fun seg :: "ArenaMmap \<Rightarrow> nat \<Rightarrow> 32 word \<Rightarrow> 32 word list \<Rightarrow> 32 word \<Rightarrow> bool" where
  "seg a L p [] e = (p \<noteq> 0 \<and> nxt a L p = Some e)"
| "seg a L p (q # qs) e = (p \<noteq> 0 \<and> nxt a L p = Some q \<and> seg a L q qs e)"

text \<open>The key and the value a node holds, as the arena reads them.\<close>

definition nkey :: "ArenaMmap \<Rightarrow> 32 word \<Rightarrow> 8 word list" where
  "nkey a p =
     (case nodes a p of
        None \<Rightarrow> []
      | Some nd \<Rightarrow>
          map (buf a) [unat (keyOffset nd) ..< unat (keyOffset nd) + unat (keySize nd)])"

definition nval :: "ArenaMmap \<Rightarrow> 32 word \<Rightarrow> 64 word" where
  "nval a p = (case nodes a p of None \<Rightarrow> 0 | Some nd \<Rightarrow> nvalue nd)"

definition entries :: "ArenaMmap \<Rightarrow> 32 word list \<Rightarrow> (8 word list \<times> 64 word) list" where
  "entries a qs = map (\<lambda>q. (nkey a q, nval a q)) qs"

text \<open>The first and the last node of a chain, \<^verbatim>\<open>nil\<close> when it is empty.\<close>

definition hd0 :: "32 word list \<Rightarrow> 32 word" where
  "hd0 xs = (case xs of [] \<Rightarrow> 0 | x # _ \<Rightarrow> x)"

definition last0 :: "32 word list \<Rightarrow> 32 word" where
  "last0 xs = (if xs = [] then 0 else last xs)"

text \<open>
  What \<^verbatim>\<open>findSpliceForLevel\<close> computes, on the chain \<open>zs\<close> behind the node \<open>b\<close> it starts
  from.
\<close>

fun splice_of :: "ArenaMmap \<Rightarrow> 8 word list \<Rightarrow> 32 word \<Rightarrow> 32 word list \<Rightarrow> 32 word \<times> 32 word" where
  "splice_of a key b [] = (b, 0)"
| "splice_of a key b (q # qs) =
     (if nkey a q = key then (q, q)
      else if key < nkey a q then (b, q)
      else splice_of a key q qs)"

text \<open>
  What \<^verbatim>\<open>findNear\<close> is documented to find, on the base chain \<open>qs\<close>: the rightmost node with
  a key below \<open>key\<close> (or equal to it, when allowed), or the leftmost node with a key above
  \<open>key\<close> (or equal to it, when allowed).
\<close>

definition near_node :: "ArenaMmap \<Rightarrow> 8 word list \<Rightarrow> bool \<Rightarrow> bool \<Rightarrow> 32 word list \<Rightarrow> 32 word" where
  "near_node a key less' allowEqual qs =
     (if less'
      then last0 (takeWhile (\<lambda>q. if allowEqual then nkey a q \<le> key else nkey a q < key) qs)
      else hd0 (dropWhile (\<lambda>q. if allowEqual then nkey a q < key else nkey a q \<le> key) qs))"

text \<open>
  A splice \<open>(p, n)\<close> of the chain \<open>qs\<close> of a level for \<open>key\<close>: the chain splits between \<open>p\<close>
  and \<open>n\<close>, the key of \<open>p\<close> is below \<open>key\<close> unless \<open>p\<close> is the head, and the key of \<open>n\<close> is
  above \<open>key\<close> unless \<open>n\<close> is \<^verbatim>\<open>nil\<close>.
\<close>

definition splice_ok ::
    "ArenaMmap \<Rightarrow> 32 word \<Rightarrow> 8 word list \<Rightarrow> 32 word list \<Rightarrow> 32 word \<Rightarrow> 32 word \<Rightarrow> bool" where
  "splice_ok a h key qs p n \<longleftrightarrow>
     (\<exists>us vs. qs = us @ vs \<and> p = last (h # us) \<and> n = hd0 vs \<and>
        (us \<noteq> [] \<longrightarrow> nkey a (last us) < key) \<and> (vs \<noteq> [] \<longrightarrow> key < nkey a (hd vs)))"

text \<open>
  The arrays \<^verbatim>\<open>prev\<close> and \<^verbatim>\<open>next\<close> of \<^verbatim>\<open>Put\<close>: the levels from \<open>i\<close> to the height \<open>H\<close> the
  call started with hold splices, the levels above \<open>H\<close> (from \<open>i\<close> on) hold \<^verbatim>\<open>nil\<close>.
\<close>

definition arrays_ok ::
    "ArenaMmap \<Rightarrow> 32 word \<Rightarrow> 8 word list \<Rightarrow> (nat \<Rightarrow> 32 word list) \<Rightarrow> nat \<Rightarrow> nat
       \<Rightarrow> 32 word list \<Rightarrow> 32 word list \<Rightarrow> bool" where
  "arrays_ok a h key cs H i prev next \<longleftrightarrow>
     length prev = nat (maxHeight + 1) \<and> length next = nat (maxHeight + 1) \<and>
     (\<forall>j. i \<le> j \<and> j \<le> H \<longrightarrow> splice_ok a h key (cs j) (prev ! j) (next ! j)) \<and>
     (\<forall>j. H < j \<and> i \<le> j \<and> j \<le> nat maxHeight \<longrightarrow> prev ! j = 0)"

text \<open>
  The arena is well formed: the cursor is inside the capacity, offsets fit 32 bits, and
  every node and every key lies below the cursor.
\<close>

definition wf_arena :: "ArenaMmap \<Rightarrow> bool" where
  "wf_arena a \<longleftrightarrow>
     1 \<le> cursor a \<and> cursor a \<le> capacity a \<and> capacity a < 2 ^ 32 \<and>
     (\<forall>p nd. nodes a p = Some nd \<longrightarrow>
        p \<noteq> 0 \<and> unat p < cursor a \<and> unat (keyOffset nd) + unat (keySize nd) \<le> cursor a)"

text \<open>
  The structural invariant of the list, with the chain \<open>cs L\<close> of every level \<open>L\<close>: the
  chains start at the head and end in the null offset, hold no node twice, are empty from
  the list's height on, and each is contained in the one below. A node of the base chain
  has its height field equal to its allocated tower, below the list's height, and a tower
  slot that is not null belongs to the chain of its level.
\<close>

definition skl_inv :: "SkiplistMmap \<Rightarrow> (nat \<Rightarrow> 32 word list) \<Rightarrow> bool" where
  "skl_inv s cs \<longleftrightarrow>
     wf_arena (arena s) \<and> 1 \<le> height s \<and> height s \<le> maxHeight \<and>
     (\<exists>hn. nodes (arena s) (head s) = Some hn \<and> length (tower hn) = nat maxHeight) \<and>
     (\<forall>L. L < nat maxHeight \<longrightarrow> seg (arena s) L (head s) (cs L) 0) \<and>
     (\<forall>L. distinct (head s # cs L)) \<and>
     (\<forall>L. nat (height s) \<le> L \<longrightarrow> cs L = []) \<and>
     (\<forall>L. set (cs (Suc L)) \<subseteq> set (cs L)) \<and>
     (\<forall>q \<in> set (cs 0). \<forall>nd. nodes (arena s) q = Some nd \<longrightarrow>
        unat (nheight nd) = length (tower nd) \<and> 1 \<le> length (tower nd) \<and>
        int (length (tower nd)) \<le> height s \<and>
        (\<forall>L r. nxt (arena s) L q = Some r \<and> r \<noteq> 0 \<longrightarrow> q \<in> set (cs L)))"

text \<open>The keys of every chain increase strictly.\<close>

definition skl_sorted :: "SkiplistMmap \<Rightarrow> (nat \<Rightarrow> 32 word list) \<Rightarrow> bool" where
  "skl_sorted s cs \<longleftrightarrow> (\<forall>L. sorted_wrt (<) (map (nkey (arena s)) (cs L)))"

text \<open>
  The fields of a node other than its tower slots, and arenas that differ in tower slots
  only.
\<close>

definition ndata :: "node \<Rightarrow> 64 word \<times> 32 word \<times> 16 word \<times> 16 word \<times> nat" where
  "ndata nd = (nvalue nd, keyOffset nd, keySize nd, nheight nd, length (tower nd))"

definition data_same :: "ArenaMmap \<Rightarrow> ArenaMmap \<Rightarrow> bool" where
  "data_same a0 a \<longleftrightarrow>
     cursor a = cursor a0 \<and> capacity a = capacity a0 \<and> buf a = buf a0 \<and>
     (\<forall>p. map_option ndata (nodes a p) = map_option ndata (nodes a0 p))"

text \<open>
  The invariant of the linking loop of \<^verbatim>\<open>Put\<close> before level \<open>i\<close>: the new node \<open>x\<close> is
  linked into the chains below \<open>i\<close>, at the splice of each level, and the chains from \<open>i\<close>
  on are the chains \<open>cs\<close> the call started with; \<open>a0\<close> is the arena after the allocation
  of \<open>x\<close>.
\<close>

definition link_inv ::
    "ArenaMmap \<Rightarrow> (nat \<Rightarrow> 32 word list) \<Rightarrow> nat \<Rightarrow> 8 word list \<Rightarrow> 32 word \<Rightarrow> int \<Rightarrow> nat
       \<Rightarrow> SkiplistMmap \<Rightarrow> (nat \<Rightarrow> 32 word list) \<Rightarrow> 32 word list \<Rightarrow> 32 word list \<Rightarrow> bool" where
  "link_inv a0 cs H key x h i s csi prev next \<longleftrightarrow>
     skl_inv s csi \<and> data_same a0 (arena s) \<and> h \<le> height s \<and> 1 \<le> H \<and>
     arrays_ok a0 (head s) key cs H i prev next \<and>
     (\<forall>L. i \<le> L \<longrightarrow> csi L = cs L) \<and> (\<forall>L. H \<le> L \<longrightarrow> cs L = []) \<and>
     (\<forall>L. x \<notin> set (cs L)) \<and> x \<noteq> head s \<and>
     (\<forall>L. L < i \<longrightarrow>
        (\<exists>us vs. cs L = us @ vs \<and> csi L = us @ x # vs \<and>
           (us \<noteq> [] \<longrightarrow> nkey a0 (last us) < key) \<and> (vs \<noteq> [] \<longrightarrow> key < nkey a0 (hd vs)))) \<and>
     (\<exists>xn. nodes (arena s) x = Some xn \<and> length (tower xn) = nat h \<and>
        unat (nheight xn) = nat h \<and> (\<forall>L. i \<le> L \<and> L < nat h \<longrightarrow> tower xn ! L = 0))"

text \<open>
  What a \<^verbatim>\<open>Put\<close> that inserts a node does: from the list \<open>s\<close> with the chains \<open>cs\<close> it
  leads to the list \<open>s'\<close> with the chains \<open>cs'\<close>, where the new node \<open>x\<close> of height \<open>h\<close>
  stands in the chains below \<open>h\<close>, between a node with a smaller key and a node with a
  larger key; the older nodes keep their keys and values.
\<close>

definition put_new ::
    "SkiplistMmap \<Rightarrow> (nat \<Rightarrow> 32 word list) \<Rightarrow> 8 word list \<Rightarrow> 64 word \<Rightarrow> int
       \<Rightarrow> SkiplistMmap \<Rightarrow> (nat \<Rightarrow> 32 word list) \<Rightarrow> 32 word \<Rightarrow> bool" where
  "put_new s cs key uid h s' cs' x \<longleftrightarrow>
     skl_inv s' cs' \<and> head s' = head s \<and> ref s' = ref s \<and> height s' = max (height s) h \<and>
     nodes (arena s) x = None \<and> cursor (arena s) \<le> cursor (arena s') \<and>
     capacity (arena s') = capacity (arena s) \<and>
     (\<forall>L. if L < nat h
          then (\<exists>us vs. cs L = us @ vs \<and> cs' L = us @ x # vs \<and>
                  (us \<noteq> [] \<longrightarrow> nkey (arena s) (last us) < key) \<and>
                  (vs \<noteq> [] \<longrightarrow> key < nkey (arena s) (hd vs)))
          else cs' L = cs L) \<and>
     (\<forall>q. nodes (arena s) q \<noteq> None \<longrightarrow>
        nkey (arena s') q = nkey (arena s) q \<and> nval (arena s') q = nval (arena s) q) \<and>
     nkey (arena s') x = take (length key mod 65536) key \<and> nval (arena s') x = uid"

declare zeroOut_loop.simps [code]
declare findNear_loop.simps [code]
declare findSpliceForLevel.simps [code]
declare Put_raise.simps [code]
declare Put_link.simps [code]
declare findLast_loop.simps [code]
declare scan_loop.simps [code]

section \<open>Library facts\<close>

lemma bytes_compare_eq: "bytes_compare a b = 0 \<longleftrightarrow> a = b"
  by (induction a b rule: bytes_compare.induct) auto

lemma bytes_compare_less: "bytes_compare a b < 0 \<longleftrightarrow> a < b"
  by (induction a b rule: bytes_compare.induct) auto

lemma bytes_compare_greater: "bytes_compare a b > 0 \<longleftrightarrow> b < a"
  by (induction a b rule: bytes_compare.induct) auto

lemma arr_get_Inr: "0 \<le> i \<Longrightarrow> nat i < length xs \<Longrightarrow> arr_get xs i = Inr (xs ! nat i)"
  by (simp add: arr_get_def)

lemma arr_set_Inr: "0 \<le> i \<Longrightarrow> nat i < length xs \<Longrightarrow> arr_set xs i v = Inr (xs[nat i := v])"
  by (simp add: arr_set_def)

section \<open>zeroOut\<close>

lemma zeroOut_step_length:
  "length (take bp data @ copy_slice (drop bp data) (take bp data)) = length data"
  by (simp add: copy_slice_def)


lemma int_wrap_id: "- (2 ^ (w - 1)) \<le> x \<Longrightarrow> x < 2 ^ (w - 1) \<Longrightarrow> 0 < w \<Longrightarrow> int_wrap w x = x"
proof -
  assume a: "- (2 ^ (w - 1)) \<le> x" "x < 2 ^ (w - 1)" "0 < w"
  then have "(2::int) ^ w = 2 * 2 ^ (w - 1)"
    by (cases w) simp_all
  with a have "0 \<le> x + 2 ^ (w - 1)" "x + 2 ^ (w - 1) < 2 ^ w"
    by simp_all
  then have "(x + 2 ^ (w - 1)) mod 2 ^ w = x + 2 ^ (w - 1)"
    by simp
  then show ?thesis
    by (simp add: int_wrap_def)
qed

lemma int_wrap_double:
  assumes "0 < bp" and "bp < 2 ^ (w - 2)"
  shows "int_wrap w (bp * 2) = bp * 2"
proof -
  have w: "2 \<le> w"
  proof (rule ccontr)
    assume "\<not> 2 \<le> w"
    then have "w - 2 = 0" by simp
    with assms show False by simp
  qed
  then have "w - 1 = Suc (w - 2)"
    by simp
  then have "(2::int) ^ (w - 1) = 2 * 2 ^ (w - 2)"
    by (simp only: power_Suc)
  with assms have "- (2 ^ (w - 1)) \<le> bp * 2" "bp * 2 < 2 ^ (w - 1)"
    by linarith+
  moreover from w have "0 < w"
    by linarith
  ultimately show ?thesis
    by (rule int_wrap_id)
qed



text \<open>
  Past this length the doubling overflows: with \<^verbatim>\<open>bp\<close> \<open>= 2^(w-2)\<close> still below the length,
  the next \<^verbatim>\<open>bp *= 2\<close> yields \<open>-2^(w-1)\<close> and the slice expression panics.
\<close>

lemma int_wrap_overflow: "2 \<le> w \<Longrightarrow> int_wrap w (2 ^ (w - 2) * 2) = - (2 ^ (w - 1))"
proof -
  assume w: "2 \<le> w"
  then have "w - 1 = Suc (w - 2)"
    by simp
  then have e: "(2::int) ^ (w - 2) * 2 = 2 ^ (w - 1)"
    by (simp only: power_Suc mult.commute)
  from w have "(2::int) ^ w = 2 ^ (w - 1) + 2 ^ (w - 1)"
    by (cases w) simp_all
  then have "((2::int) ^ (w - 1) + 2 ^ (w - 1)) mod 2 ^ w = 0"
    by simp
  with e show ?thesis
    by (simp add: int_wrap_def)
qed

lemma zeroOut_loop_overflow:
  "2 \<le> w \<Longrightarrow> k \<le> w - 2 \<Longrightarrow> 2 ^ (w - 2) < int (length data) \<Longrightarrow>
     zeroOut_loop w data (2 ^ k) = Some (Inl SliceBounds)"
proof (induction "w - 2 - k" arbitrary: data k rule: less_induct)
  case less
  let ?d = "take (nat (2 ^ k)) data @ copy_slice (drop (nat (2 ^ k)) data) (take (nat (2 ^ k)) data)"
  have len: "length ?d = length data"
    by (rule zeroOut_step_length)
  have "(2::int) ^ k \<le> 2 ^ (w - 2)"
    using less.prems(2) by simp
  with less.prems(3) have lt: "(2::int) ^ k < int (length data)"
    by linarith
  have step: "zeroOut_loop w data (2 ^ k) = zeroOut_loop w ?d (int_wrap w (2 ^ k * 2))"
    using lt by (subst zeroOut_loop.simps) simp
  show ?case
  proof (cases "k = w - 2")
    case True
    have "- (2 ^ (w - 1)) < (0::int)"
      by simp
    moreover have "(0::int) \<le> int (length ?d)"
      by simp
    ultimately have "- (2 ^ (w - 1)) < int (length ?d) \<and> - (2 ^ (w - 1)) < (0::int)"
      by linarith
    then have "zeroOut_loop w ?d (- (2 ^ (w - 1))) = Some (Inl SliceBounds)"
      by (subst zeroOut_loop.simps) (simp only: if_True)
    with step True less.prems(1) show ?thesis
      by (simp add: int_wrap_overflow)
  next
    case False
    with less.prems(2) have k: "Suc k \<le> w - 2" by simp
    then have "(2::int) ^ k < 2 ^ (w - 2)"
      by (simp add: Suc_le_lessD)
    then have "int_wrap w (2 ^ k * 2) = 2 ^ Suc k"
      by (simp add: int_wrap_double)
    moreover have "zeroOut_loop w ?d (2 ^ Suc k) = Some (Inl SliceBounds)"
      using less.prems(1) k less.prems(3) len by (intro less.hyps) auto
    ultimately show ?thesis
      using step by simp
  qed
qed

lemma zeroOut_overflow:
  assumes "2 \<le> w" and "0 \<le> offset" and "2 ^ (w - 2) < int (length data) - offset"
  shows "zeroOut w data offset = Some (Inl SliceBounds)"
proof -
  let ?d = "(drop (nat offset) data)[0 := 0]"
  have p: "(0::int) < 2 ^ (w - 2)"
    by simp
  have "length ?d = length data - nat offset"
    by simp
  then have "int (length ?d) = int (length data) - offset"
    using assms(2,3) p by linarith
  with assms(3) have "2 ^ (w - 2) < int (length ?d)"
    by (simp only:)
  with assms(1) have "zeroOut_loop w ?d (2 ^ 0) = Some (Inl SliceBounds)"
    by (rule zeroOut_loop_overflow [OF _ le0])
  then have l: "zeroOut_loop w ?d 1 = Some (Inl SliceBounds)"
    by simp
  have "\<not> (offset < 0 \<or> int (length data) < offset)"
    using assms(2,3) p by linarith
  moreover have "offset < int (length data)"
    using assms(3) p by linarith
  with assms(2) have "length (drop (nat offset) data) \<noteq> 0"
    by (simp add: nat_less_iff)
  ultimately show ?thesis
    using l by (simp add: zeroOut_def Let_def)
qed

section \<open>randomHeight\<close>

lemma randomHeight_loop_bounds:
  "1 \<le> h \<Longrightarrow> h \<le> maxHeight \<Longrightarrow>
     1 \<le> randomHeight_loop rnd h i \<and> randomHeight_loop rnd h i \<le> maxHeight"
proof (induction rnd h i rule: randomHeight_loop.induct)
  case (1 rnd h i)
  then show ?case
    by (subst randomHeight_loop.simps) auto
qed

lemma randomHeight_bounds: "1 \<le> randomHeight rnd \<and> randomHeight rnd \<le> maxHeight"
  unfolding randomHeight_def by (rule randomHeight_loop_bounds) (simp_all add: maxHeight_def)

section \<open>Reading nodes\<close>

lemma getNext_nxt:
  "p \<noteq> 0 \<Longrightarrow> nxt (arena s) L p = Some q \<Longrightarrow> L < nat maxHeight \<Longrightarrow>
     getNext s p (int L) = Inr q"
  by (auto simp: getNext_def deref_def nxt_def getNextOffset_def getNode_def maxHeight_def
      split: option.splits if_splits)

lemma getNext_Inr_nxt:
  "getNext s p level = Inr q \<Longrightarrow>
     p \<noteq> 0 \<and> 0 \<le> level \<and> level < maxHeight \<and> nxt (arena s) (nat level) p = Some q"
  by (auto simp: getNext_def deref_def nxt_def getNextOffset_def getNode_def
      split: option.splits if_splits sum.splits)

lemma keyMmap_nkey:
  "wf_arena a \<Longrightarrow> nodes a p = Some nd \<Longrightarrow> keyMmap a p = Inr (nkey a p)"
  by (fastforce simp: keyMmap_def deref_def getKey_def nkey_def wf_arena_def)

lemma getValue_nval:
  "wf_arena a \<Longrightarrow> nodes a p = Some nd \<Longrightarrow> getValue a p = Inr (nval a p)"
  by (fastforce simp: getValue_def deref_def nval_def wf_arena_def)

lemma nxt_allocated: "nxt a L p = Some q \<Longrightarrow> \<exists>nd. nodes a p = Some nd \<and> L < length (tower nd)"
  by (auto simp: nxt_def split: option.splits if_splits)

section \<open>Chains\<close>

lemma seg_append:
  "seg a L p (us @ v # vs) e \<longleftrightarrow> seg a L p us v \<and> seg a L v vs e"
  by (induction us arbitrary: p) auto

lemma seg_start: "seg a L p qs e \<Longrightarrow> p \<noteq> 0 \<and> nxt a L p = Some (hd (qs @ [e]))"
  by (cases qs) auto

lemma seg_mem:
  "seg a L p qs e \<Longrightarrow> q \<in> set qs \<Longrightarrow> q \<noteq> 0 \<and> (\<exists>r. nxt a L q = Some r)"
proof (induction qs arbitrary: p)
  case Nil
  then show ?case by simp
next
  case (Cons u us)
  then show ?case
    using seg_start [of a L u us e] by auto
qed

lemma seg_cong:
  "\<forall>q \<in> set (p # qs). nxt a' L q = nxt a L q \<Longrightarrow> seg a' L p qs e = seg a L p qs e"
  by (induction qs arbitrary: p) auto

lemma seg_split_mem:
  assumes "seg a L h cs e" and "x \<in> set (h # cs)"
  shows "\<exists>us zs. h # cs = us @ x # zs \<and> seg a L x zs e"
proof -
  from assms(2) obtain us zs where sp: "h # cs = us @ x # zs"
    by (meson split_list)
  show ?thesis
  proof (cases us)
    case Nil
    with sp assms(1) show ?thesis by auto
  next
    case (Cons u us')
    with sp have "cs = us' @ x # zs" by simp
    with assms(1) have "seg a L x zs e"
      by (simp add: seg_append)
    with sp show ?thesis by blast
  qed
qed

lemma seg_last:
  "seg a L h (us @ vs) e \<Longrightarrow> nxt a L (last (h # us)) = Some (hd (vs @ [e]))"
proof (induction us arbitrary: h)
  case Nil
  then show ?case using seg_start by fastforce
next
  case (Cons u us)
  then show ?case by auto
qed

lemma seg_prefix_insert:
  assumes "seg a L h (us @ vs) e" and "distinct (h # us)" and "x \<notin> set (h # us)"
    and "nxt a' L (last (h # us)) = Some x"
    and "\<forall>q. q \<noteq> x \<longrightarrow> q \<noteq> last (h # us) \<longrightarrow> nxt a' L q = nxt a L q"
  shows "seg a' L h us x"
  using assms
proof (induction us arbitrary: h)
  case Nil
  then show ?case using seg_start by fastforce
next
  case (Cons u us)
  from Cons.prems have "seg a L u (us @ vs) e" "distinct (u # us)" "x \<notin> set (u # us)"
    "nxt a' L (last (u # us)) = Some x"
    "\<forall>q. q \<noteq> x \<longrightarrow> q \<noteq> last (u # us) \<longrightarrow> nxt a' L q = nxt a L q"
    by auto
  then have "seg a' L u us x"
    by (rule Cons.IH)
  moreover have "h \<noteq> x" "h \<noteq> last (h # u # us)"
    using Cons.prems(2,3) by auto
  then have "nxt a' L h = nxt a L h"
    using Cons.prems(5) by blast
  ultimately show ?case
    using Cons.prems(1) by auto
qed

lemma seg_insert:
  assumes "seg a L h (us @ vs) e" and "distinct (h # us @ vs)" and "x \<notin> set (h # us @ vs)"
    and "x \<noteq> 0"
    and "nxt a' L x = Some (hd (vs @ [e]))"
    and "nxt a' L (last (h # us)) = Some x"
    and "\<forall>q. q \<noteq> x \<longrightarrow> q \<noteq> last (h # us) \<longrightarrow> nxt a' L q = nxt a L q"
  shows "seg a' L h (us @ x # vs) e"
proof -
  have d: "distinct (h # us)" and nx: "x \<notin> set (h # us)"
    using assms(2,3) by auto
  have pre: "seg a' L h us x"
    by (rule seg_prefix_insert [OF assms(1) d nx assms(6) assms(7)])
  have post: "seg a' L x vs e"
  proof (cases vs)
    case Nil
    with assms(4,5) show ?thesis by simp
  next
    case (Cons v vs')
    with assms(1) have sv: "seg a L v vs' e"
      by (simp add: seg_append)
    have "last (h # us) \<in> set (h # us)"
      by (rule last_in_set) simp
    moreover have "set (h # us) \<inter> set (v # vs') = {}"
      using assms(2) Cons by auto
    moreover have "x \<notin> set (v # vs')"
      using assms(3) Cons by auto
    ultimately have "\<forall>q \<in> set (v # vs'). q \<noteq> x \<and> q \<noteq> last (h # us)"
      by blast
    with assms(7) have "\<forall>q \<in> set (v # vs'). nxt a' L q = nxt a L q"
      by blast
    with sv have "seg a' L v vs' e"
      by (simp only: seg_cong)
    with assms(4,5) Cons show ?thesis by simp
  qed
  from pre post show ?thesis
    by (simp add: seg_append)
qed

lemma subset_chain_le:
  assumes "\<forall>L. set (cs (Suc L)) \<subseteq> set (cs L)"
  shows "i \<le> j \<Longrightarrow> set (cs j) \<subseteq> set (cs i)"
proof (induction j)
  case 0
  then show ?case by simp
next
  case (Suc j)
  show ?case
  proof (cases "i = Suc j")
    case True
    then show ?thesis by simp
  next
    case False
    with Suc.prems have "i \<le> j" by simp
    then have "set (cs j) \<subseteq> set (cs i)" by (rule Suc.IH)
    with assms show ?thesis by blast
  qed
qed

section \<open>Facts of the invariant\<close>

lemma hd_append_zero: "hd (vs @ [0]) = hd0 vs"
  by (cases vs) (simp_all add: hd0_def)

lemma inv_wf: "skl_inv s cs \<Longrightarrow> wf_arena (arena s)"
  by (simp add: skl_inv_def)

lemma inv_seg: "skl_inv s cs \<Longrightarrow> L < nat maxHeight \<Longrightarrow> seg (arena s) L (head s) (cs L) 0"
  by (simp add: skl_inv_def)

lemma inv_distinct: "skl_inv s cs \<Longrightarrow> distinct (head s # cs L)"
  by (simp add: skl_inv_def)

lemma inv_subset: "skl_inv s cs \<Longrightarrow> i \<le> j \<Longrightarrow> set (cs j) \<subseteq> set (cs i)"
  by (rule subset_chain_le) (simp_all add: skl_inv_def)

lemma inv_head: "skl_inv s cs \<Longrightarrow> head s \<noteq> 0 \<and> (\<exists>hn. nodes (arena s) (head s) = Some hn)"
  by (auto simp: skl_inv_def wf_arena_def)

lemma inv_empty_level: "skl_inv s cs \<Longrightarrow> nat (height s) \<le> L \<Longrightarrow> cs L = []"
  by (simp add: skl_inv_def)

lemma inv_height: "skl_inv s cs \<Longrightarrow> 1 \<le> height s \<and> height s \<le> maxHeight"
  by (simp add: skl_inv_def)

lemma inv_mem_allocated:
  assumes "skl_inv s cs" and "q \<in> set (cs L)"
  shows "q \<noteq> 0 \<and> (\<exists>nd. nodes (arena s) q = Some nd)"
proof -
  have "L < nat maxHeight"
  proof (rule ccontr)
    assume "\<not> L < nat maxHeight"
    moreover have "height s \<le> maxHeight"
      using assms(1) by (simp add: inv_height)
    ultimately have "nat (height s) \<le> L"
      by linarith
    with assms(1) have "cs L = []"
      by (rule inv_empty_level)
    with assms(2) show False by simp
  qed
  with assms(1) have "seg (arena s) L (head s) (cs L) 0"
    by (rule inv_seg)
  from seg_mem [OF this assms(2)] show ?thesis
    using nxt_allocated by blast
qed

lemma inv_mem_base: "skl_inv s cs \<Longrightarrow> q \<in> set (cs L) \<Longrightarrow> q \<in> set (cs 0)"
  using inv_subset [of s cs 0 L] by blast

section \<open>findSpliceForLevel\<close>

lemma findSplice_spec:
  assumes "wf_arena (arena s)" and "L < nat maxHeight"
  shows "seg (arena s) L b zs 0 \<Longrightarrow>
           findSpliceForLevel s key b (int L) = Some (Inr (splice_of (arena s) key b zs))"
proof (induction zs arbitrary: b)
  case Nil
  then have "getNext s b (int L) = Inr 0"
    using assms(2) by (simp add: getNext_nxt)
  then show ?case
    by (subst findSpliceForLevel.simps) simp
next
  case (Cons q zs)
  then have b: "getNext s b (int L) = Inr q" and sq: "seg (arena s) L q zs 0"
    using assms(2) by (simp_all add: getNext_nxt)
  from sq have q0: "q \<noteq> 0" and "\<exists>nd. nodes (arena s) q = Some nd"
    using seg_start nxt_allocated by blast+
  then have k: "keyMmap (arena s) q = Inr (nkey (arena s) q)"
    using assms(1) keyMmap_nkey by blast
  show ?case
  proof (cases "nkey (arena s) q = key")
    case True
    with b q0 k show ?thesis
      by (subst findSpliceForLevel.simps) (simp add: bytes_compare_eq [THEN iffD2])
  next
    case neq: False
    show ?thesis
    proof (cases "key < nkey (arena s) q")
      case True
      then have "bytes_compare key (nkey (arena s) q) < 0"
        by (simp add: bytes_compare_less)
      with b q0 k True neq show ?thesis
        by (subst findSpliceForLevel.simps) simp
    next
      case False
      then have "\<not> bytes_compare key (nkey (arena s) q) < 0"
        by (simp add: bytes_compare_less)
      moreover have "bytes_compare key (nkey (arena s) q) \<noteq> 0"
        using neq by (auto simp: bytes_compare_eq)
      ultimately show ?thesis
        using b q0 k False neq Cons.IH [OF sq]
        by (subst findSpliceForLevel.simps) simp
    qed
  qed
qed

lemma splice_of_cases:
  "splice_of a key b zs = (p, n) \<Longrightarrow>
     (\<exists>us vs. zs = us @ p # vs \<and> n = p \<and> nkey a p = key) \<or>
     (\<exists>us vs. zs = us @ vs \<and> p = last (b # us) \<and> n = hd0 vs \<and>
        (\<forall>u \<in> set us. nkey a u < key) \<and> (vs \<noteq> [] \<longrightarrow> key < nkey a (hd vs)))"
proof (induction zs arbitrary: b)
  case Nil
  then show ?case by (simp add: hd0_def)
next
  case (Cons q zs)
  show ?case
  proof (cases "nkey a q = key")
    case True
    with Cons.prems have "p = q \<and> n = q" by auto
    then have "p = q" and "n = q" by blast+
    with True have "q # zs = [] @ p # zs \<and> n = p \<and> nkey a p = key" by simp
    then show ?thesis by blast
  next
    case neq: False
    show ?thesis
    proof (cases "key < nkey a q")
      case True
      with neq Cons.prems have "p = b \<and> n = q" by auto
      then have "p = b" and "n = q" by blast+
      with True have "q # zs = [] @ (q # zs) \<and> p = last (b # []) \<and> n = hd0 (q # zs) \<and>
          (\<forall>u \<in> set []. nkey a u < key) \<and> (q # zs \<noteq> [] \<longrightarrow> key < nkey a (hd (q # zs)))"
        by (auto simp: hd0_def)
      then show ?thesis by blast
    next
      case False
      with neq have lt: "nkey a q < key" by auto
      from False neq Cons.prems have "splice_of a key q zs = (p, n)" by simp
      from Cons.IH [OF this] show ?thesis
      proof
        assume "\<exists>us vs. zs = us @ p # vs \<and> n = p \<and> nkey a p = key"
        then obtain us vs where "zs = us @ p # vs" "n = p" "nkey a p = key" by blast
        then have "q # zs = (q # us) @ p # vs \<and> n = p \<and> nkey a p = key" by simp
        then show ?thesis by blast
      next
        assume "\<exists>us vs. zs = us @ vs \<and> p = last (q # us) \<and> n = hd0 vs \<and>
            (\<forall>u \<in> set us. nkey a u < key) \<and> (vs \<noteq> [] \<longrightarrow> key < nkey a (hd vs))"
        then obtain us vs where "zs = us @ vs" "p = last (q # us)" "n = hd0 vs"
            "\<forall>u \<in> set us. nkey a u < key" "vs \<noteq> [] \<longrightarrow> key < nkey a (hd vs)" by blast
        with lt have "q # zs = (q # us) @ vs \<and> p = last (b # q # us) \<and> n = hd0 vs \<and>
            (\<forall>u \<in> set (q # us). nkey a u < key) \<and> (vs \<noteq> [] \<longrightarrow> key < nkey a (hd vs))"
          by simp
        then show ?thesis by blast
      qed
    qed
  qed
qed

section \<open>Sorted chains\<close>

lemma sorted_split_bounds:
  fixes f :: "'a \<Rightarrow> 8 word list"
  assumes "sorted_wrt (<) (map f (us @ vs))"
    and "us \<noteq> [] \<longrightarrow> f (last us) < k" and "vs \<noteq> [] \<longrightarrow> k < f (hd vs)"
  shows "(\<forall>u \<in> set us. f u < k) \<and> (\<forall>v \<in> set vs. k < f v)"
proof (intro conjI ballI)
  fix u assume u: "u \<in> set us"
  then have ne: "us \<noteq> []" by auto
  have "sorted_wrt (<) (map f us)"
    using assms(1) by (simp add: sorted_wrt_append)
  then have "sorted_wrt (<) (map f (butlast us @ [last us]))"
    using ne by simp
  then have "\<forall>x \<in> set (butlast us). f x < f (last us)"
    by (simp add: sorted_wrt_append del: append_butlast_last_id)
  moreover have "u \<in> set (butlast us) \<or> u = last us"
    using u ne by (metis append_butlast_last_id in_set_conv_decomp rotate1.simps(2) set_ConsD set_rotate1)
  ultimately show "f u < k"
    using assms(2) ne by (auto intro: less_trans)
next
  fix v assume v: "v \<in> set vs"
  then obtain w ws where vs: "vs = w # ws" by (cases vs) auto
  have "sorted_wrt (<) (map f vs)"
    using assms(1) by (simp add: sorted_wrt_append)
  with vs have "\<forall>x \<in> set ws. f w < f x" by simp
  with v vs assms(3) show "k < f v"
    by (auto intro: less_trans)
qed

lemma sorted_split_absent:
  fixes f :: "'a \<Rightarrow> 8 word list"
  assumes "sorted_wrt (<) (map f (us @ vs))"
    and "us \<noteq> [] \<longrightarrow> f (last us) < k" and "vs \<noteq> [] \<longrightarrow> k < f (hd vs)"
  shows "takeWhile (\<lambda>q. f q < k) (us @ vs) = us" and "takeWhile (\<lambda>q. f q \<le> k) (us @ vs) = us"
    and "dropWhile (\<lambda>q. f q < k) (us @ vs) = vs" and "dropWhile (\<lambda>q. f q \<le> k) (us @ vs) = vs"
    and "k \<notin> f ` set (us @ vs)"
proof -
  from sorted_split_bounds [OF assms]
  have u: "\<forall>u \<in> set us. f u < k" and v: "\<forall>v \<in> set vs. k < f v" by blast+
  have tv: "takeWhile (\<lambda>q. f q < k) vs = []" "takeWhile (\<lambda>q. f q \<le> k) vs = []"
    using v by (cases vs; force)+
  have dv: "dropWhile (\<lambda>q. f q < k) vs = vs" "dropWhile (\<lambda>q. f q \<le> k) vs = vs"
    using v by (cases vs; force)+
  show "takeWhile (\<lambda>q. f q < k) (us @ vs) = us"
    using u tv by (simp add: takeWhile_append2)
  show "takeWhile (\<lambda>q. f q \<le> k) (us @ vs) = us"
    using u tv by (simp add: takeWhile_append2 less_imp_le)
  show "dropWhile (\<lambda>q. f q < k) (us @ vs) = vs"
    using u dv by (simp add: dropWhile_append2)
  show "dropWhile (\<lambda>q. f q \<le> k) (us @ vs) = vs"
    using u dv by (simp add: dropWhile_append2 less_imp_le)
  show "k \<notin> f ` set (us @ vs)"
    using u v by auto
qed

lemma sorted_split_present:
  fixes f :: "'a \<Rightarrow> 8 word list"
  assumes "sorted_wrt (<) (map f (us @ q # vs))"
  shows "takeWhile (\<lambda>x. f x < f q) (us @ q # vs) = us"
    and "takeWhile (\<lambda>x. f x \<le> f q) (us @ q # vs) = us @ [q]"
    and "dropWhile (\<lambda>x. f x < f q) (us @ q # vs) = q # vs"
    and "dropWhile (\<lambda>x. f x \<le> f q) (us @ q # vs) = vs"
proof -
  from assms have u: "\<forall>u \<in> set us. f u < f q" and v: "\<forall>v \<in> set vs. f q < f v"
    by (auto simp: sorted_wrt_append)
  have tv: "takeWhile (\<lambda>x. f x \<le> f q) vs = []" and dv: "dropWhile (\<lambda>x. f x \<le> f q) vs = vs"
    using v by (cases vs; force)+
  show "takeWhile (\<lambda>x. f x < f q) (us @ q # vs) = us"
    using u by (simp add: takeWhile_append2)
  show "takeWhile (\<lambda>x. f x \<le> f q) (us @ q # vs) = us @ [q]"
    using u tv by (simp add: takeWhile_append2 less_imp_le)
  show "dropWhile (\<lambda>x. f x < f q) (us @ q # vs) = q # vs"
    using u by (simp add: dropWhile_append2)
  show "dropWhile (\<lambda>x. f x \<le> f q) (us @ q # vs) = vs"
    using u dv by (simp add: dropWhile_append2 less_imp_le)
qed

section \<open>findNear\<close>

lemma seg_suffix: "seg a L h cs e \<Longrightarrow> h # cs = us @ x # zs \<Longrightarrow> seg a L x zs e"
  by (cases us) (auto simp: seg_append)

lemma inv_descend:
  assumes "skl_inv s cs" and "x \<in> set (head s # cs L)"
  shows "x \<in> set (head s # cs (L - 1))"
  using assms inv_subset [of s cs "L - 1" L] by auto

lemma list_less_snoc: "(xs :: 8 word list) < xs @ [y]"
  by (induction xs) simp_all

lemma sorted_level: "skl_sorted s cs \<Longrightarrow> cs L = qs \<Longrightarrow> sorted_wrt (<) (map (nkey (arena s)) qs)"
  by (auto simp: skl_sorted_def)

lemma base_position:
  assumes inv: "skl_inv s cs"
    and sp: "head s # cs 0 = us @ x # zs"
    and k: "x = head s \<or> nkey (arena s) x < key"
  shows "cs 0 = tl (us @ [x]) @ zs"
    and "last0 (tl (us @ [x])) = (if x = head s then 0 else x)"
    and "tl (us @ [x]) \<noteq> [] \<longrightarrow> nkey (arena s) (last (tl (us @ [x]))) < key"
proof -
  have d: "distinct (head s # cs 0)"
    using inv by (rule inv_distinct)
  show "cs 0 = tl (us @ [x]) @ zs"
    using sp by (cases us) auto
  show "last0 (tl (us @ [x])) = (if x = head s then 0 else x)"
  proof (cases us)
    case Nil
    with sp show ?thesis by (simp add: last0_def)
  next
    case (Cons u us')
    with sp have "u = head s" "cs 0 = us' @ x # zs" by simp_all
    with d have "x \<noteq> head s" by auto
    with Cons show ?thesis by (simp add: last0_def)
  qed
  show "tl (us @ [x]) \<noteq> [] \<longrightarrow> nkey (arena s) (last (tl (us @ [x]))) < key"
  proof (cases us)
    case Nil
    then show ?thesis by simp
  next
    case (Cons u us')
    with sp have "u = head s" "cs 0 = us' @ x # zs" by simp_all
    with d have "x \<noteq> head s" by auto
    with k Cons show ?thesis by simp
  qed
qed

lemma near_bottom:
  assumes inv: "skl_inv s cs" and srt: "skl_sorted s cs"
    and sp: "head s # cs 0 = us @ x # zs"
    and k: "x = head s \<or> nkey (arena s) x < key"
    and z: "zs \<noteq> [] \<longrightarrow> key < nkey (arena s) (hd zs)"
  shows "near_node (arena s) key less' allowEqual (cs 0) =
           (if less' then (if x = head s then 0 else x) else hd0 zs)"
    and "key \<notin> nkey (arena s) ` set (cs 0)"
proof -
  let ?pre = "tl (us @ [x])"
  note bp = base_position [OF inv sp k]
  have so: "sorted_wrt (<) (map (nkey (arena s)) (?pre @ zs))"
    using srt bp(1) by (rule sorted_level)
  note ab = sorted_split_absent [OF so bp(3) z]
  show "near_node (arena s) key less' allowEqual (cs 0) =
           (if less' then (if x = head s then 0 else x) else hd0 zs)"
    unfolding near_node_def
    by (subst (1 2) bp(1)) (cases allowEqual; simp add: ab bp(2))
  show "key \<notin> nkey (arena s) ` set (cs 0)"
    using ab(5) bp(1) by simp
qed

lemma near_equal:
  assumes inv: "skl_inv s cs" and srt: "skl_sorted s cs"
    and q: "q \<in> set (cs 0)" and kq: "nkey (arena s) q = key"
  shows "near_node (arena s) key less' True (cs 0) = q"
    and "getNext s q 0 = Inr (near_node (arena s) key False False (cs 0))"
proof -
  from q obtain us vs where sp: "cs 0 = us @ q # vs"
    by (meson split_list)
  have so: "sorted_wrt (<) (map (nkey (arena s)) (us @ q # vs))"
    using srt sp by (rule sorted_level)
  note pr = sorted_split_present [OF so, unfolded kq]
  show "near_node (arena s) key less' True (cs 0) = q"
    unfolding near_node_def
    by (subst (1 2) sp) (simp add: pr last0_def hd0_def)
  have mh: "0 < nat maxHeight"
    by (simp add: maxHeight_def)
  have "seg (arena s) 0 (head s) (us @ q # vs) 0"
    using inv_seg [OF inv mh] sp by simp
  then have "seg (arena s) 0 q vs 0"
    by (simp add: seg_append)
  then have "q \<noteq> 0" and "nxt (arena s) 0 q = Some (hd0 vs)"
    using seg_start [of "arena s" 0 q vs 0] by (simp_all add: hd_append_zero)
  then have "getNext s q (int 0) = Inr (hd0 vs)"
    using mh by (rule getNext_nxt)
  moreover have "near_node (arena s) key False False (cs 0) = hd0 vs"
    unfolding near_node_def by (subst sp) (simp add: pr)
  ultimately show "getNext s q 0 = Inr (near_node (arena s) key False False (cs 0))"
    by simp
qed

lemma near_pred_equal:
  assumes inv: "skl_inv s cs" and srt: "skl_sorted s cs"
    and sp: "head s # cs 0 = us @ x # q # zs" and kq: "nkey (arena s) q = key"
  shows "near_node (arena s) key True False (cs 0) = (if x = head s then 0 else x)"
proof -
  let ?pre = "tl (us @ [x])"
  have k: "x = head s \<or> nkey (arena s) x < nkey (arena s) x @ [0]"
    by (simp add: list_less_snoc)
  note bp = base_position [OF inv sp k]
  have so: "sorted_wrt (<) (map (nkey (arena s)) (?pre @ q # zs))"
    using srt bp(1) by (rule sorted_level)
  note pr = sorted_split_present [OF so, unfolded kq]
  show ?thesis
    unfolding near_node_def by (subst bp(1)) (simp add: pr bp(2))
qed

lemma findNear_level:
  assumes inv: "skl_inv s cs" and srt: "skl_sorted s cs" and L: "L < nat maxHeight"
    and desc: "\<And>x'. 0 < L \<Longrightarrow> x' \<in> set (head s # cs (L - 1)) \<Longrightarrow>
                 x' = head s \<or> nkey (arena s) x' < key \<Longrightarrow>
                 findNear_loop s key less' allowEqual x' (int L - 1) =
                   Some (Inr (near_node (arena s) key less' allowEqual (cs 0),
                              allowEqual \<and> key \<in> nkey (arena s) ` set (cs 0)))"
  shows "head s # cs L = us @ x # zs \<Longrightarrow> x = head s \<or> nkey (arena s) x < key \<Longrightarrow>
           findNear_loop s key less' allowEqual x (int L) =
             Some (Inr (near_node (arena s) key less' allowEqual (cs 0),
                        allowEqual \<and> key \<in> nkey (arena s) ` set (cs 0)))"
proof (induction zs arbitrary: x us)
  case Nil
  have sg: "seg (arena s) L x [] 0"
    using inv_seg [OF inv L] Nil.prems(1) by (rule seg_suffix)
  then have gn: "getNext s x (int L) = Inr 0"
    using L by (simp add: getNext_nxt)
  show ?case
  proof (cases "0 < L")
    case True
    have "x \<in> set (head s # cs (L - 1))"
      using Nil.prems(1) by (intro inv_descend [OF inv]) (metis in_set_conv_decomp)
    from desc [OF True this Nil.prems(2)] gn True show ?thesis
      by (subst findNear_loop.simps) simp
  next
    case False
    then have L0: "L = 0" by simp
    have z: "([] :: 32 word list) \<noteq> [] \<longrightarrow> key < nkey (arena s) (hd [])"
      by simp
    note nb = near_bottom(1) [OF inv srt Nil.prems(1) [unfolded L0] Nil.prems(2) z,
        where less' = less' and allowEqual = allowEqual]
      near_bottom(2) [OF inv srt Nil.prems(1) [unfolded L0] Nil.prems(2) z]
    from gn L0 nb show ?thesis
      by (subst findNear_loop.simps) (simp add: hd0_def)
  qed
next
  case (Cons q zs)
  have sg: "seg (arena s) L x (q # zs) 0"
    using inv_seg [OF inv L] Cons.prems(1) by (rule seg_suffix)
  then have gn: "getNext s x (int L) = Inr q"
    using L by (simp add: getNext_nxt)
  have qL: "q \<in> set (cs L)"
    using Cons.prems(1) by (cases us) auto
  then have q0: "q \<in> set (cs 0)"
    using inv inv_mem_base by blast
  from inv_mem_allocated [OF inv qL] have qn: "q \<noteq> 0"
    and km: "keyMmap (arena s) q = Inr (nkey (arena s) q)"
    using keyMmap_nkey [OF inv_wf [OF inv]] by blast+
  consider (gt) "nkey (arena s) q < key" | (eq) "nkey (arena s) q = key"
    | (lt) "key < nkey (arena s) q"
    by fastforce
  then show ?case
  proof cases
    case gt
    then have c: "bytes_compare key (nkey (arena s) q) > 0"
      by (simp add: bytes_compare_greater)
    have "head s # cs L = (us @ [x]) @ q # zs"
      using Cons.prems(1) by simp
    from Cons.IH [OF this] gt gn qn km c show ?thesis
      by (subst findNear_loop.simps) simp
  next
    case eq
    then have c: "bytes_compare key (nkey (arena s) q) = 0"
      by (simp add: bytes_compare_eq)
    note ne = near_equal [OF inv srt q0 eq]
    have inq: "key \<in> nkey (arena s) ` set (cs 0)"
      using q0 eq by auto
    show ?thesis
    proof (cases allowEqual)
      case True
      with gn qn km c ne(1) [where less' = less'] inq show ?thesis
        by (subst findNear_loop.simps) simp
    next
      case ae: False
      show ?thesis
      proof (cases less')
        case False
        with ae gn qn km c ne(2) show ?thesis
          by (subst findNear_loop.simps) simp
      next
        case True
        show ?thesis
        proof (cases "0 < L")
          case pos: True
          have "x \<in> set (head s # cs (L - 1))"
            using Cons.prems(1) by (intro inv_descend [OF inv]) (metis in_set_conv_decomp)
          from desc [OF pos this Cons.prems(2)] ae True gn qn km c pos show ?thesis
            by (subst findNear_loop.simps) simp
        next
          case False
          then have L0: "L = 0" by simp
          note np = near_pred_equal [OF inv srt Cons.prems(1) [unfolded L0] eq]
          from ae True gn qn km c L0 np show ?thesis
            by (subst findNear_loop.simps) simp
        qed
      qed
    qed
  next
    case lt
    then have c: "bytes_compare key (nkey (arena s) q) < 0"
      by (simp add: bytes_compare_less)
    show ?thesis
    proof (cases "0 < L")
      case pos: True
      have "x \<in> set (head s # cs (L - 1))"
        using Cons.prems(1) by (intro inv_descend [OF inv]) (metis in_set_conv_decomp)
      from desc [OF pos this Cons.prems(2)] gn qn km c pos show ?thesis
        by (subst findNear_loop.simps) simp
    next
      case False
      then have L0: "L = 0" by simp
      have z: "q # zs \<noteq> [] \<longrightarrow> key < nkey (arena s) (hd (q # zs))"
        using lt by simp
      note nb = near_bottom(1) [OF inv srt Cons.prems(1) [unfolded L0] Cons.prems(2) z,
          where less' = less' and allowEqual = allowEqual]
        near_bottom(2) [OF inv srt Cons.prems(1) [unfolded L0] Cons.prems(2) z]
      from gn qn km c L0 nb show ?thesis
        by (subst findNear_loop.simps) (simp add: hd0_def)
    qed
  qed
qed

lemma findNear_loop_spec:
  assumes inv: "skl_inv s cs" and srt: "skl_sorted s cs"
  shows "L < nat maxHeight \<Longrightarrow> x \<in> set (head s # cs L) \<Longrightarrow>
           x = head s \<or> nkey (arena s) x < key \<Longrightarrow>
           findNear_loop s key less' allowEqual x (int L) =
             Some (Inr (near_node (arena s) key less' allowEqual (cs 0),
                        allowEqual \<and> key \<in> nkey (arena s) ` set (cs 0)))"
proof (induction L arbitrary: x)
  case 0
  from 0(2) obtain us zs where "head s # cs 0 = us @ x # zs"
    by (meson split_list)
  then show ?case
    using 0 by (intro findNear_level [OF inv srt, where L = 0 and us = us and zs = zs]) simp_all
next
  case (Suc L)
  from Suc.prems(2) obtain us zs where sp: "head s # cs (Suc L) = us @ x # zs"
    by (meson split_list)
  have L: "L < nat maxHeight"
    using Suc.prems(1) by simp
  show ?case
  proof (rule findNear_level [OF inv srt Suc.prems(1) _ sp Suc.prems(3)])
    fix x'
    assume "x' \<in> set (head s # cs (Suc L - 1))" "x' = head s \<or> nkey (arena s) x' < key"
    then show "findNear_loop s key less' allowEqual x' (int (Suc L) - 1) =
        Some (Inr (near_node (arena s) key less' allowEqual (cs 0),
                   allowEqual \<and> key \<in> nkey (arena s) ` set (cs 0)))"
      using Suc.IH [OF L, of x'] by simp
  qed
qed

lemma findNear_spec:
  assumes inv: "skl_inv s cs" and srt: "skl_sorted s cs"
  shows "findNear s key less' allowEqual =
           Some (Inr (near_node (arena s) key less' allowEqual (cs 0),
                      allowEqual \<and> key \<in> nkey (arena s) ` set (cs 0)))"
proof -
  from inv_height [OF inv] have h: "1 \<le> height s" "height s \<le> maxHeight" by simp_all
  then have "nat (height s - 1) < nat maxHeight" by linarith
  from findNear_loop_spec [OF inv srt this, of "head s" key less' allowEqual] h
  show ?thesis
    by (simp add: findNear_def)
qed

section \<open>findLast and the forward scan\<close>

lemma last_position:
  assumes inv: "skl_inv s cs" and sp: "head s # cs 0 = us @ [x]"
  shows "last0 (cs 0) = (if x = head s then 0 else x)"
proof (cases us)
  case Nil
  with sp show ?thesis by (simp add: last0_def)
next
  case (Cons u us')
  with sp have "u = head s" "cs 0 = us' @ [x]" by simp_all
  moreover from this inv_distinct [OF inv, of 0] have "x \<noteq> head s" by auto
  ultimately show ?thesis by (simp add: last0_def)
qed

lemma findLast_level:
  assumes inv: "skl_inv s cs" and L: "L < nat maxHeight"
    and desc: "\<And>x'. 0 < L \<Longrightarrow> x' \<in> set (head s # cs (L - 1)) \<Longrightarrow>
                 findLast_loop s x' (int L - 1) = Some (Inr (last0 (cs 0)))"
  shows "head s # cs L = us @ x # zs \<Longrightarrow>
           findLast_loop s x (int L) = Some (Inr (last0 (cs 0)))"
proof (induction zs arbitrary: x us)
  case Nil
  have sg: "seg (arena s) L x [] 0"
    using inv_seg [OF inv L] Nil.prems(1) by (rule seg_suffix)
  then have gn: "getNext s x (int L) = Inr 0"
    using L by (simp add: getNext_nxt)
  show ?case
  proof (cases "0 < L")
    case True
    have "x \<in> set (head s # cs (L - 1))"
      using Nil.prems(1) by (intro inv_descend [OF inv]) (metis in_set_conv_decomp)
    from desc [OF True this] gn True show ?thesis
      by (subst findLast_loop.simps) simp
  next
    case False
    then have L0: "L = 0" by simp
    from last_position [OF inv Nil.prems(1) [unfolded L0]] gn L0 show ?thesis
      by (subst findLast_loop.simps) simp
  qed
next
  case (Cons q zs)
  have sg: "seg (arena s) L x (q # zs) 0"
    using inv_seg [OF inv L] Cons.prems(1) by (rule seg_suffix)
  then have gn: "getNext s x (int L) = Inr q"
    using L by (simp add: getNext_nxt)
  have qL: "q \<in> set (cs L)"
    using Cons.prems(1) by (cases us) auto
  from inv_mem_allocated [OF inv qL] have qn: "q \<noteq> 0" by simp
  have "head s # cs L = (us @ [x]) @ q # zs"
    using Cons.prems(1) by simp
  from Cons.IH [OF this] gn qn show ?case
    by (subst findLast_loop.simps) simp
qed

lemma findLast_loop_spec:
  assumes inv: "skl_inv s cs"
  shows "L < nat maxHeight \<Longrightarrow> x \<in> set (head s # cs L) \<Longrightarrow>
           findLast_loop s x (int L) = Some (Inr (last0 (cs 0)))"
proof (induction L arbitrary: x)
  case 0
  from 0(2) obtain us zs where "head s # cs 0 = us @ x # zs"
    by (meson split_list)
  then show ?case
    using 0 by (intro findLast_level [OF inv, where L = 0 and us = us and zs = zs]) simp_all
next
  case (Suc L)
  from Suc.prems(2) obtain us zs where sp: "head s # cs (Suc L) = us @ x # zs"
    by (meson split_list)
  have L: "L < nat maxHeight"
    using Suc.prems(1) by simp
  show ?case
  proof (rule findLast_level [OF inv Suc.prems(1) _ sp])
    fix x'
    assume "x' \<in> set (head s # cs (Suc L - 1))"
    then show "findLast_loop s x' (int (Suc L) - 1) = Some (Inr (last0 (cs 0)))"
      using Suc.IH [OF L, of x'] by simp
  qed
qed

lemma findLast_spec:
  assumes inv: "skl_inv s cs"
  shows "findLast s = Some (Inr (last0 (cs 0)))"
proof -
  from inv_height [OF inv] have h: "1 \<le> height s" "height s \<le> maxHeight" by simp_all
  then have "nat (height s - 1) < nat maxHeight" by linarith
  from findLast_loop_spec [OF inv this, of "head s"] h
  show ?thesis
    by (simp add: findLast_def)
qed

lemma last0_zero_iff:
  assumes inv: "skl_inv s cs"
  shows "last0 (cs 0) = 0 \<longleftrightarrow> cs 0 = []"
proof (cases "cs 0 = []")
  case True
  then show ?thesis by (simp add: last0_def)
next
  case False
  then have "last (cs 0) \<in> set (cs 0)" by simp
  from inv_mem_allocated [OF inv this] False show ?thesis
    by (simp add: last0_def)
qed

lemma Empty_spec:
  assumes inv: "skl_inv s cs"
  shows "Empty s = Some (Inr (cs 0 = []))"
  by (simp add: Empty_def findLast_spec [OF inv] last0_zero_iff [OF inv])

lemma scan_loop_spec:
  assumes wf: "wf_arena (arena s)"
  shows "seg (arena s) 0 x zs 0 \<Longrightarrow>
           scan_loop s \<lparr>cur = x\<rparr> acc =
             Some (Inr (acc @ entries (arena s) (x # zs), \<lparr>cur = 0\<rparr>))"
proof (induction zs arbitrary: x acc)
  case Nil
  then have x0: "x \<noteq> 0" and nx: "nxt (arena s) 0 x = Some 0" by simp_all
  from nx obtain nd where nd: "nodes (arena s) x = Some nd"
    using nxt_allocated by blast
  have gn: "getNext s x 0 = Inr 0"
    using getNext_nxt [OF x0 nx] by (simp add: maxHeight_def)
  have e: "scan_loop s \<lparr>cur = 0\<rparr> (acc @ [(nkey (arena s) x, nval (arena s) x)]) =
      Some (Inr (acc @ [(nkey (arena s) x, nval (arena s) x)], \<lparr>cur = 0\<rparr>))"
    by (subst scan_loop.simps) (simp add: Valid_def)
  show ?case
    by (subst scan_loop.simps)
      (simp add: Valid_def Key_def Value_def Next_def x0 gn e entries_def
        keyMmap_nkey [OF wf nd] getValue_nval [OF wf nd])
next
  case (Cons q zs)
  then have x0: "x \<noteq> 0" and nx: "nxt (arena s) 0 x = Some q" and sq: "seg (arena s) 0 q zs 0"
    by simp_all
  from nx obtain nd where nd: "nodes (arena s) x = Some nd"
    using nxt_allocated by blast
  have gn: "getNext s x 0 = Inr q"
    using getNext_nxt [OF x0 nx] by (simp add: maxHeight_def)
  note ih = Cons.IH [OF sq, of "acc @ [(nkey (arena s) x, nval (arena s) x)]"]
  show ?case
    by (subst scan_loop.simps)
      (simp add: Valid_def Key_def Value_def Next_def x0 gn ih entries_def
        keyMmap_nkey [OF wf nd] getValue_nval [OF wf nd])
qed

lemma SeekToFirst_spec:
  assumes inv: "skl_inv s cs"
  shows "SeekToFirst s it = Inr (it\<lparr>cur := hd0 (cs 0)\<rparr>)"
proof -
  have mh: "0 < nat maxHeight"
    by (simp add: maxHeight_def)
  from seg_start [OF inv_seg [OF inv mh]] have "head s \<noteq> 0"
    and "nxt (arena s) 0 (head s) = Some (hd0 (cs 0))"
    by (simp_all add: hd_append_zero)
  then have "getNext s (head s) (int 0) = Inr (hd0 (cs 0))"
    using mh by (rule getNext_nxt)
  then show ?thesis
    by (simp add: SeekToFirst_def)
qed

lemma scan_spec:
  assumes inv: "skl_inv s cs"
  shows "scan s = Some (Inr (entries (arena s) (cs 0), \<lparr>cur = 0\<rparr>))"
proof (cases "cs 0")
  case Nil
  have "scan_loop s \<lparr>cur = 0\<rparr> [] = Some (Inr ([], \<lparr>cur = 0\<rparr>))"
    by (subst scan_loop.simps) (simp add: Valid_def)
  with Nil show ?thesis
    by (simp add: scan_def SeekToFirst_spec [OF inv] NewIterator_def hd0_def entries_def)
next
  case (Cons q qs)
  have mh: "0 < nat maxHeight"
    by (simp add: maxHeight_def)
  from inv_seg [OF inv mh] Cons have "seg (arena s) 0 q qs 0" by simp
  from scan_loop_spec [OF inv_wf [OF inv] this, of "[]"] Cons show ?thesis
    by (simp add: scan_def SeekToFirst_spec [OF inv] NewIterator_def hd0_def)
qed

section \<open>Allocation\<close>

lemma unat_of_nat32: "n < 2 ^ 32 \<Longrightarrow> unat (of_nat n :: 32 word) = n"
  by (simp add: unat_of_nat)

lemma map_nth_shift: "n \<le> length xs \<Longrightarrow> map (\<lambda>i. xs ! (i - m)) [m ..< m + n] = take n xs"
  by (rule nth_equalityI) simp_all

lemma round_up_ge: "(c::nat) \<le> ((c + 8 - 1) div 8) * 8"
  by presburger

lemma reserve_cases:
  "reserve a sz al = Inl ArenaFull \<or>
   (\<exists>m. reserve a sz al = Inr (m, a\<lparr>cursor := m + sz\<rparr>) \<and>
        m = ((cursor a + al - 1) div al) * al \<and> m + sz \<le> capacity a)"
  by (simp add: reserve_def Let_def)

text \<open>The result of a successful \<^verbatim>\<open>newNodeMmap\<close>: a fresh node behind every older one.\<close>

lemma newNodeMmap_cases:
  assumes wf: "wf_arena a" and h: "0 \<le> h" "h \<le> maxHeight"
  shows "newNodeMmap a key uid h = Inl ArenaFull \<or>
    (\<exists>x a' ko. newNodeMmap a key uid h = Inr (x, a') \<and> x \<noteq> 0 \<and> nodes a x = None \<and>
       wf_arena a' \<and> capacity a' = capacity a \<and> cursor a \<le> cursor a' \<and>
       nodes a' = (nodes a)(x \<mapsto> \<lparr>nvalue = uid, keyOffset = ko,
          keySize = of_nat (length key), nheight = of_int h, tower = replicate (nat h) 0\<rparr>) \<and>
       (\<forall>i < cursor a. buf a' i = buf a i) \<and>
       nkey a' x = take (length key mod 65536) key)"
proof -
  define sz where "sz = headerSize + nat h * offsetSize"
  define m where "m = ((cursor a + 8 - 1) div 8) * 8"
  let ?zero = "\<lparr>nvalue = 0, keyOffset = 0, keySize = 0, nheight = 0,
      tower = replicate (nat h) (0 :: 32 word)\<rparr>"
  from wf have cpos: "1 \<le> cursor a" and cc: "cursor a \<le> capacity a" and cap: "capacity a < 2 ^ 32"
    and al: "\<forall>p nd. nodes a p = Some nd \<longrightarrow>
        p \<noteq> 0 \<and> unat p < cursor a \<and> unat (keyOffset nd) + unat (keySize nd) \<le> cursor a"
    by (simp_all add: wf_arena_def)
  have mge: "cursor a \<le> m"
    unfolding m_def by (rule round_up_ge)
  have rs: "reserve a sz nodeAlign =
      (if m + sz > capacity a then Inl ArenaFull else Inr (m, a\<lparr>cursor := m + sz\<rparr>))"
    by (simp add: reserve_def Let_def nodeAlign_def m_def)
  have szpos: "0 < sz"
    by (simp add: sz_def headerSize_def)
  show ?thesis
  proof (cases "m + sz > capacity a")
    case True
    then show ?thesis
      using rs by (simp add: newNodeMmap_def putNode_def sz_def)
  next
    case room1: False
    let ?x = "of_nat m :: 32 word"
    let ?a1 = "a\<lparr>cursor := m + sz, nodes := (nodes a)(?x \<mapsto> ?zero)\<rparr>"
    have pn: "putNode a h = Inr (?x, ?a1)"
      using room1 rs by (simp add: putNode_def sz_def)
    have m32: "m < 2 ^ 32"
      using room1 cap by linarith
    have ux: "unat ?x = m"
      using m32 by (rule unat_of_nat32)
    have x0: "?x \<noteq> 0"
      using ux mge cpos by (metis not_one_le_zero le_trans unat_0 le_zero_eq)
    have fresh: "nodes a ?x = None"
    proof (cases "nodes a ?x")
      case None
      then show ?thesis .
    next
      case (Some nd)
      with al have "unat ?x < cursor a" by blast
      with ux mge show ?thesis by simp
    qed
    have dr: "deref ?a1 (getNode ?a1 ?x) = Inr ?zero"
      using x0 by (simp add: deref_def getNode_def)
    define c1 where "c1 = m + sz"
    have a1c: "cursor ?a1 = c1"
      by (simp add: c1_def)
    have rk: "reserve ?a1 (length key) 1 =
        (if c1 + length key > capacity a then Inl ArenaFull
         else Inr (c1, ?a1\<lparr>cursor := c1 + length key\<rparr>))"
      by (simp add: reserve_def Let_def c1_def)
    show ?thesis
    proof (cases "c1 + length key > capacity a")
      case True
      then have "putKey ?a1 key = Inl ArenaFull"
        using rk by (simp add: putKey_def)
      with pn dr show ?thesis
        by (simp add: newNodeMmap_def)
    next
      case room2: False
      let ?ko = "of_nat c1 :: 32 word"
      let ?b = "\<lambda>i. if c1 \<le> i \<and> i < c1 + length key then key ! (i - c1) else buf a i"
      let ?a2 = "?a1\<lparr>cursor := c1 + length key, buf := ?b\<rparr>"
      let ?nd = "\<lparr>nvalue = uid, keyOffset = ?ko, keySize = of_nat (length key),
          nheight = of_int h, tower = replicate (nat h) (0 :: 32 word)\<rparr>"
      let ?a' = "store ?a2 ?x ?nd"
      have pk: "putKey ?a1 key = Inr (?ko, ?a2)"
        using room2 rk by (simp add: putKey_def cong del: if_weak_cong)
      have res: "newNodeMmap a key uid h = Inr (?x, ?a')"
        using pn dr pk by (simp add: newNodeMmap_def getNode_def)
      have c32: "c1 < 2 ^ 32"
        using room2 cap by linarith
      have mc: "m < c1"
        using szpos by (simp add: c1_def)
      have uko: "unat ?ko = c1"
        using c32 by (rule unat_of_nat32)
      have uks: "unat (of_nat (length key) :: 16 word) = length key mod 65536"
        by (simp add: unat_of_nat)
      have nds: "nodes ?a' = (nodes a)(?x \<mapsto> ?nd)"
        by (simp add: store_def)
      have bufs: "\<forall>i < cursor a. buf ?a' i = buf a i"
        using mge mc by (simp add: store_def)
      have wf': "wf_arena ?a'"
        unfolding wf_arena_def
      proof (intro conjI allI impI)
        show "1 \<le> cursor ?a'" using cpos mge mc by (simp add: store_def)
        show "cursor ?a' \<le> capacity ?a'" using room2 by (simp add: store_def)
        show "capacity ?a' < 2 ^ 32" using cap by (simp add: store_def)
      next
        fix p nd
        assume pn: "nodes ?a' p = Some nd"
        show "p \<noteq> 0"
          using pn x0 al by (auto simp: store_def split: if_splits)
        show "unat p < cursor ?a'"
        proof (cases "p = ?x")
          case True
          then show ?thesis using ux mc by (simp add: store_def)
        next
          case False
          with pn have "nodes a p = Some nd" by (simp add: store_def)
          with al have "unat p < cursor a" by blast
          with mge mc show ?thesis by (simp add: store_def)
        qed
        show "unat (keyOffset nd) + unat (keySize nd) \<le> cursor ?a'"
        proof (cases "p = ?x")
          case True
          with pn have nd: "nd = ?nd" by (simp add: store_def)
          have "length key mod 65536 \<le> length key" by simp
          then show ?thesis
            unfolding nd by (simp add: store_def uko uks)
        next
          case False
          with pn have "nodes a p = Some nd" by (simp add: store_def)
          with al have "unat (keyOffset nd) + unat (keySize nd) \<le> cursor a" by blast
          with mge mc show ?thesis by (simp add: store_def)
        qed
      qed
      have nk: "nkey ?a' ?x = take (length key mod 65536) key"
      proof -
        have "nkey ?a' ?x = map ?b [c1 ..< c1 + length key mod 65536]"
          by (simp add: nkey_def store_def uko uks)
        also have "\<dots> = map (\<lambda>i. key ! (i - c1)) [c1 ..< c1 + length key mod 65536]"
        proof (rule map_cong [OF refl])
          fix i
          assume "i \<in> set [c1 ..< c1 + length key mod 65536]"
          then have "c1 \<le> i" and "i < c1 + length key mod 65536" by simp_all
          moreover have "length key mod 65536 \<le> length key" by simp
          ultimately have "c1 \<le> i \<and> i < c1 + length key" by linarith
          then show "?b i = key ! (i - c1)" by simp
        qed
        also have "\<dots> = take (length key mod 65536) key"
          by (rule map_nth_shift) simp
        finally show ?thesis .
      qed
      have "capacity ?a' = capacity a" and "cursor a \<le> cursor ?a'"
        using mge mc by (simp_all add: store_def)
      with res x0 fresh wf' nds bufs nk show ?thesis
        by blast
    qed
  qed
qed

lemma nkey_frame:
  assumes "wf_arena a" and "nodes a p = Some nd" and "nodes a' p = Some nd'"
    and "keyOffset nd' = keyOffset nd" and "keySize nd' = keySize nd"
    and "\<forall>i < cursor a. buf a' i = buf a i"
  shows "nkey a' p = nkey a p"
proof -
  from assms(1,2) have b: "unat (keyOffset nd) + unat (keySize nd) \<le> cursor a"
    by (simp add: wf_arena_def)
  have "map (buf a') [unat (keyOffset nd) ..< unat (keyOffset nd) + unat (keySize nd)] =
      map (buf a) [unat (keyOffset nd) ..< unat (keyOffset nd) + unat (keySize nd)]"
    using b assms(6) by (intro map_cong [OF refl]) simp
  with assms(2-5) show ?thesis
    by (simp add: nkey_def)
qed

section \<open>Put: the search for the splices\<close>

lemma splice_ok_prev:
  assumes "splice_ok a h key qs p n"
  shows "p \<in> set (h # qs)" and "p = h \<or> nkey a p < key"
proof -
  from assms obtain us vs where sp: "qs = us @ vs" "p = last (h # us)"
      "us \<noteq> [] \<longrightarrow> nkey a (last us) < key"
    by (auto simp: splice_ok_def)
  show "p \<in> set (h # qs)"
  proof (cases "us = []")
    case True
    with sp show ?thesis by simp
  next
    case False
    then have "last us \<in> set us" by simp
    with False sp show ?thesis by simp
  qed
  show "p = h \<or> nkey a p < key"
    using sp by (cases "us = []") simp_all
qed

lemma splice_ok_next:
  assumes "splice_ok a h key qs p n"
  shows "n = 0 \<or> n \<in> set qs"
proof -
  from assms obtain us vs where "qs = us @ vs" "n = hd0 vs"
    by (auto simp: splice_ok_def)
  then show ?thesis
    by (cases vs) (simp_all add: hd0_def)
qed

lemma splice_ok_build:
  assumes sp: "h # cs = us0 @ b # zs" and bk: "b = h \<or> nkey a b < key"
    and d: "distinct (h # cs)"
    and z: "zs = us1 @ vs1" and p: "p = last (b # us1)" and n: "n = hd0 vs1"
    and u: "\<forall>u \<in> set us1. nkey a u < key" and v: "vs1 \<noteq> [] \<longrightarrow> key < nkey a (hd vs1)"
  shows "splice_ok a h key cs p n"
proof -
  let ?us = "tl (us0 @ [b]) @ us1"
  have hd: "h # tl (us0 @ [b]) = us0 @ [b]"
    using sp by (cases us0) auto
  have c: "cs = ?us @ vs1"
    using sp z by (cases us0) auto
  have "h # ?us = us0 @ b # us1"
    using hd by simp
  then have "last (h # ?us) = last (us0 @ b # us1)"
    by (simp only:)
  also have "\<dots> = last (b # us1)"
    by simp
  finally have l: "p = last (h # ?us)"
    using p by simp
  have k: "?us \<noteq> [] \<longrightarrow> nkey a (last ?us) < key"
  proof (cases "us1 = []")
    case False
    then have "last ?us = last us1" "last us1 \<in> set us1" by simp_all
    with u show ?thesis by simp
  next
    case True
    show ?thesis
    proof (cases us0)
      case Nil
      with True show ?thesis by simp
    next
      case (Cons w ws)
      with sp have "w = h" "cs = ws @ b # zs" by simp_all
      with d have "b \<noteq> h" by auto
      with bk have "nkey a b < key" by simp
      with True Cons show ?thesis by simp
    qed
  qed
  from c l n k v show ?thesis
    unfolding splice_ok_def by blast
qed

lemma assignValue_store:
  "p \<noteq> 0 \<Longrightarrow> nodes a p = Some nd \<Longrightarrow> assignValue a p uid = Inr (store a p (nd\<lparr>nvalue := uid\<rparr>))"
  by (simp add: assignValue_def deref_def)

lemma arrays_ok_update:
  assumes ok: "arrays_ok a h key cs H (Suc n) prev next" and nH: "n \<le> H" "H \<le> nat maxHeight"
    and sp: "splice_ok a h key (cs n) p q"
  shows "arrays_ok a h key cs H n (prev[n := p]) (next[n := q])"
  unfolding arrays_ok_def
proof (intro conjI allI impI)
  from ok have len: "length prev = nat (maxHeight + 1)" "length next = nat (maxHeight + 1)"
    by (simp_all add: arrays_ok_def)
  then show "length (prev[n := p]) = nat (maxHeight + 1)"
    and "length (next[n := q]) = nat (maxHeight + 1)" by simp_all
  have nl: "n < length prev" "n < length next"
    using len nH by (simp_all add: maxHeight_def)
  {
    fix j
    assume j: "n \<le> j \<and> j \<le> H"
    show "splice_ok a h key (cs j) (prev[n := p] ! j) (next[n := q] ! j)"
    proof (cases "j = n")
      case True
      with sp nl show ?thesis by simp
    next
      case False
      with j have "Suc n \<le> j \<and> j \<le> H" by simp
      with ok have "splice_ok a h key (cs j) (prev ! j) (next ! j)"
        by (simp add: arrays_ok_def)
      with False show ?thesis by simp
    qed
  }
  {
    fix j
    assume j: "H < j \<and> n \<le> j \<and> j \<le> nat maxHeight"
    with nH have "H < j \<and> Suc n \<le> j \<and> j \<le> nat maxHeight" by simp
    with ok have "prev ! j = 0" by (simp add: arrays_ok_def)
    moreover from j nH have "j \<noteq> n" by simp
    ultimately show "prev[n := p] ! j = 0" by simp
  }
qed

lemma Put_search_spec:
  assumes inv: "skl_inv s cs" and H: "H = nat (height s)"
  shows "n \<le> H \<Longrightarrow> arrays_ok (arena s) (head s) key cs H n prev next \<Longrightarrow>
    (\<exists>q nd. q \<in> set (cs 0) \<and> nkey (arena s) q = key \<and> nodes (arena s) q = Some nd \<and>
       Put_search s key uid prev next (int n - 1) =
         Some (Inr (Overwritten (s\<lparr>arena := store (arena s) q (nd\<lparr>nvalue := uid\<rparr>)\<rparr>)))) \<or>
    (\<exists>prev' next'. Put_search s key uid prev next (int n - 1) = Some (Inr (Splices prev' next')) \<and>
       arrays_ok (arena s) (head s) key cs H 0 prev' next')"
proof (induction n arbitrary: prev "next")
  case 0
  have "Put_search s key uid prev next (int 0 - 1) = Some (Inr (Splices prev next))"
    by (subst Put_search.simps) simp
  with 0 show ?case by blast
next
  case (Suc n)
  let ?a = "arena s"
  from inv_height [OF inv] H have Hm: "H \<le> nat maxHeight" "1 \<le> H" by linarith+
  from Suc.prems have len: "length prev = nat (maxHeight + 1)" "length next = nat (maxHeight + 1)"
    by (simp_all add: arrays_ok_def)
  have nlt: "n < nat maxHeight" "Suc n < length prev" "n < length prev" "n < length next"
    using Suc.prems(1) Hm len by (simp_all add: maxHeight_def)
  define b where "b = prev ! Suc n"
  have ag: "arr_get prev (int n + 1) = Inr b"
    using nlt arr_get_Inr [of "int n + 1" prev] by (simp add: b_def nat_add_distrib)
  have "splice_ok ?a (head s) key (cs (Suc n)) b (next ! Suc n)"
    using Suc.prems by (simp add: arrays_ok_def b_def)
  from splice_ok_prev [OF this] have bm: "b \<in> set (head s # cs (Suc n))"
    and bk: "b = head s \<or> nkey ?a b < key" by simp_all
  from inv_descend [OF inv bm] have "b \<in> set (head s # cs n)" by simp
  then obtain us0 zs where sp: "head s # cs n = us0 @ b # zs"
    by (meson split_list)
  have sg: "seg ?a n b zs 0"
    using inv_seg [OF inv nlt(1)] sp by (rule seg_suffix)
  obtain p q where so: "splice_of ?a key b zs = (p, q)"
    by (cases "splice_of ?a key b zs") auto
  have fs: "findSpliceForLevel s key b (int n) = Some (Inr (p, q))"
    using findSplice_spec [OF inv_wf [OF inv] nlt(1) sg] so by simp
  have as: "arr_set prev (int n) p = Inr (prev[n := p])" "arr_set next (int n) q = Inr (next[n := q])"
    using nlt by (simp_all add: arr_set_Inr)
  from splice_of_cases [OF so] show ?case
  proof
    assume "\<exists>us vs. zs = us @ p # vs \<and> q = p \<and> nkey ?a p = key"
    then obtain us vs where f: "zs = us @ p # vs" "q = p" "nkey ?a p = key" by blast
    with sp have "p \<in> set (cs n)" by (cases us0) auto
    then have p0: "p \<in> set (cs 0)" and pa: "p \<noteq> 0 \<and> (\<exists>nd. nodes ?a p = Some nd)"
      using inv inv_mem_base inv_mem_allocated by blast+
    then obtain nd where nd: "nodes ?a p = Some nd" by blast
    have "Put_search s key uid prev next (int (Suc n) - 1) =
        Some (Inr (Overwritten (s\<lparr>arena := store ?a p (nd\<lparr>nvalue := uid\<rparr>)\<rparr>)))"
      using ag fs as f(2) assignValue_store [of p ?a nd uid] pa nd
      by (subst Put_search.simps) simp
    with p0 f(3) nd show ?thesis by blast
  next
    assume "\<exists>us vs. zs = us @ vs \<and> p = last (b # us) \<and> q = hd0 vs \<and>
        (\<forall>u \<in> set us. nkey ?a u < key) \<and> (vs \<noteq> [] \<longrightarrow> key < nkey ?a (hd vs))"
    then obtain us1 vs1 where f: "zs = us1 @ vs1" "p = last (b # us1)" "q = hd0 vs1"
        "\<forall>u \<in> set us1. nkey ?a u < key" "vs1 \<noteq> [] \<longrightarrow> key < nkey ?a (hd vs1)" by blast
    have d: "distinct (head s # cs n)"
      using inv by (rule inv_distinct)
    have sok: "splice_ok ?a (head s) key (cs n) p q"
      using sp bk d f by (rule splice_ok_build)
    have pm: "p \<in> set (head s # cs n)"
      using sok by (rule splice_ok_prev)
    have p0: "p \<noteq> 0"
      using pm inv_head [OF inv] inv_mem_allocated [OF inv, of p n] by auto
    have pq: "p \<noteq> q"
    proof (cases vs1)
      case Nil
      with f(3) p0 show ?thesis by (simp add: hd0_def)
    next
      case (Cons v vs')
      with f(3) have qv: "q = v" by (simp add: hd0_def)
      have "p \<in> set (b # us1)" using f(2) last_in_set [of "b # us1"] by simp
      moreover have "distinct (us0 @ b # us1 @ v # vs')"
        using d sp f(1) Cons by simp
      ultimately show ?thesis using qv by auto
    qed
    have ok': "arrays_ok ?a (head s) key cs H n (prev[n := p]) (next[n := q])"
      using Suc.prems(2) _ Hm(1) sok by (rule arrays_ok_update) (use Suc.prems(1) in simp)
    have nH: "n \<le> H" using Suc.prems(1) by simp
    have step: "Put_search s key uid prev next (int (Suc n) - 1) =
        Put_search s key uid (prev[n := p]) (next[n := q]) (int n - 1)"
      using ag fs as pq by (subst Put_search.simps) simp
    from Suc.IH [OF nH ok'] step show ?thesis by simp
  qed
qed

section \<open>Arenas that differ in tower slots\<close>

lemma data_same_refl: "data_same a a"
  by (simp add: data_same_def)

lemma data_same_nodes:
  assumes "data_same a0 a"
  shows "(nodes a p = None) = (nodes a0 p = None)"
    and "nodes a p = Some nd \<Longrightarrow> \<exists>nd0. nodes a0 p = Some nd0 \<and> ndata nd = ndata nd0"
proof -
  from assms have e: "map_option ndata (nodes a p) = map_option ndata (nodes a0 p)"
    by (simp add: data_same_def)
  then show "(nodes a p = None) = (nodes a0 p = None)"
    by (cases "nodes a p"; cases "nodes a0 p") simp_all
  show "nodes a p = Some nd \<Longrightarrow> \<exists>nd0. nodes a0 p = Some nd0 \<and> ndata nd = ndata nd0"
    using e by (cases "nodes a0 p") simp_all
qed

lemma data_same_nkey:
  assumes "data_same a0 a"
  shows "nkey a p = nkey a0 p"
proof (cases "nodes a p")
  case None
  with data_same_nodes(1) [OF assms, of p] show ?thesis
    by (simp add: nkey_def)
next
  case (Some nd)
  from data_same_nodes(2) [OF assms Some] obtain nd0 where "nodes a0 p = Some nd0"
    "ndata nd = ndata nd0" by blast
  moreover from assms have "buf a = buf a0" by (simp add: data_same_def)
  ultimately show ?thesis
    using Some by (simp add: nkey_def ndata_def)
qed

lemma data_same_nval:
  assumes "data_same a0 a"
  shows "nval a p = nval a0 p"
proof (cases "nodes a p")
  case None
  with data_same_nodes(1) [OF assms, of p] show ?thesis
    by (simp add: nval_def)
next
  case (Some nd)
  from data_same_nodes(2) [OF assms Some] obtain nd0 where "nodes a0 p = Some nd0"
    "ndata nd = ndata nd0" by blast
  then show ?thesis
    using Some by (simp add: nval_def ndata_def)
qed

lemma data_same_store:
  assumes "data_same a0 a" and "nodes a p = Some nd" and "ndata nd' = ndata nd"
  shows "data_same a0 (store a p nd')"
  using assms unfolding data_same_def store_def
  by (auto simp: ) (metis option.simps(9))

lemma ndata_tower_update [simp]: "ndata (nd\<lparr>tower := (tower nd)[L := v]\<rparr>) = ndata nd"
  by (simp add: ndata_def)

lemma wf_arena_store:
  assumes "wf_arena a" and "nodes a p = Some nd" and "ndata nd' = ndata nd"
  shows "wf_arena (store a p nd')"
  using assms unfolding wf_arena_def store_def ndata_def
  by (auto split: if_splits)

lemma nxt_store:
  "nxt (store a p nd') M q =
     (if q = p then (if M < length (tower nd') then Some (tower nd' ! M) else None)
      else nxt a M q)"
  by (simp add: nxt_def store_def)

lemma nxt_store_tower:
  assumes "nodes a p = Some nd"
  shows "nxt (store a p (nd\<lparr>tower := (tower nd)[L := v]\<rparr>)) M q =
     (if q = p \<and> M = L \<and> L < length (tower nd) then Some v else nxt a M q)"
  using assms by (auto simp: nxt_def store_def)

section \<open>Linking a node at one level keeps the invariant\<close>

lemma inv_nodes_heights:
  assumes "skl_inv s cs" and "q \<in> set (cs 0)" and "nodes (arena s) q = Some nd"
  shows "unat (nheight nd) = length (tower nd)" and "1 \<le> length (tower nd)"
    and "int (length (tower nd)) \<le> height s"
    and "nxt (arena s) M q = Some r \<Longrightarrow> r \<noteq> 0 \<Longrightarrow> q \<in> set (cs M)"
  using assms unfolding skl_inv_def by blast+

lemma inv_link:
  assumes inv: "skl_inv s cs" and L: "L < nat (height s)" and sp: "cs L = us @ vs"
    and xn: "nodes (arena s) x = Some xn" and xL: "L < length (tower xn)"
    and xh: "unat (nheight xn) = length (tower xn)" "int (length (tower xn)) \<le> height s"
    and xf: "x \<notin> set (cs L)" "x \<noteq> head s"
    and low: "0 < L \<longrightarrow> x \<in> set (cs (L - 1))"
    and zeros: "L = 0 \<longrightarrow> (\<forall>M. 0 < M \<and> M < length (tower xn) \<longrightarrow> tower xn ! M = 0)"
    and pn: "nodes (arena s) (last (head s # us)) = Some pn"
    and am: "am = store (arena s) x (xn\<lparr>tower := (tower xn)[L := hd0 vs]\<rparr>)"
    and a': "a' = store am (last (head s # us)) (pn\<lparr>tower := (tower pn)[L := x]\<rparr>)"
  shows "skl_inv (s\<lparr>arena := a'\<rparr>) (cs(L := us @ x # vs))"
proof -
  let ?a = "arena s"
  define p where "p = last (head s # us)"
  note pn = pn [folded p_def]
  note a' = a' [folded p_def]
  let ?cs' = "cs(L := us @ x # vs)"
  have wf: "wf_arena ?a" using inv by (rule inv_wf)
  from inv_height [OF inv] L have Lm: "L < nat maxHeight" by linarith
  have sg: "seg ?a L (head s) (us @ vs) 0"
    using inv_seg [OF inv Lm] sp by simp
  have d: "distinct (head s # us @ vs)"
    using inv_distinct [OF inv, of L] sp by simp
  have pin: "p \<in> set (head s # us)"
    unfolding p_def by (rule last_in_set) simp
  have px: "p \<noteq> x"
    using pin xf sp by auto
  have x0: "x \<noteq> 0"
    using wf xn by (auto simp: wf_arena_def)
  have pL: "nxt ?a L p = Some (hd0 vs)"
    using seg_last [OF sg] by (simp only: hd_append_zero p_def)
  with pn have pLen: "L < length (tower pn)"
    by (auto simp: nxt_def split: if_splits)
  have pnm: "nodes am p = Some pn"
    using px pn by (simp add: am store_def)
  have nm: "\<And>M q. nxt am M q = (if q = x \<and> M = L then Some (hd0 vs) else nxt ?a M q)"
    unfolding am using xL by (simp add: nxt_store_tower [OF xn])
  have n': "\<And>M q. nxt a' M q =
      (if q = p \<and> M = L then Some x else if q = x \<and> M = L then Some (hd0 vs) else nxt ?a M q)"
    unfolding a' using pLen by (simp add: nxt_store_tower [OF pnm] nm)
  have nother: "\<And>M q. M \<noteq> L \<Longrightarrow> nxt a' M q = nxt ?a M q"
    by (simp add: n')
  have nd': "\<And>q. q \<noteq> x \<Longrightarrow> q \<noteq> p \<Longrightarrow> nodes a' q = nodes ?a q"
    by (simp add: a' am store_def)
  have ndx: "nodes a' x = Some (xn\<lparr>tower := (tower xn)[L := hd0 vs]\<rparr>)"
    using px by (simp add: a' am store_def)
  have ndp: "nodes a' p = Some (pn\<lparr>tower := (tower pn)[L := x]\<rparr>)"
    by (simp add: a' store_def)
  have wfm: "wf_arena am"
    unfolding am using wf xn by (rule wf_arena_store) simp
  have wf': "wf_arena a'"
    unfolding a' using wfm pnm by (rule wf_arena_store) simp
  have sub: "\<And>M. set (cs M) \<subseteq> set (?cs' M)"
    using sp by auto
  have xlow: "0 < L \<Longrightarrow> x \<in> set (cs 0)"
    using low inv_mem_base [OF inv] by blast
  have segL: "seg a' L (head s) (us @ x # vs) 0"
  proof (rule seg_insert [OF sg d _ x0])
    show "x \<notin> set (head s # us @ vs)" using xf sp by simp
    show "nxt a' L x = Some (hd (vs @ [0]))" using px by (simp add: n' hd_append_zero)
    show "nxt a' L (last (head s # us)) = Some x"
      unfolding p_def [symmetric] by (simp add: n')
    show "\<forall>q. q \<noteq> x \<longrightarrow> q \<noteq> last (head s # us) \<longrightarrow> nxt a' L q = nxt ?a L q"
      unfolding p_def [symmetric] by (simp add: n')
  qed
  show ?thesis
    unfolding skl_inv_def
  proof (intro conjI allI impI ballI subsetI)
    show "wf_arena (arena (s\<lparr>arena := a'\<rparr>))" using wf' by simp
    show "1 \<le> height (s\<lparr>arena := a'\<rparr>)" "height (s\<lparr>arena := a'\<rparr>) \<le> maxHeight"
      using inv_height [OF inv] by simp_all
  next
    from inv obtain hn where hn: "nodes ?a (head s) = Some hn" "length (tower hn) = nat maxHeight"
      by (auto simp: skl_inv_def)
    show "\<exists>hn. nodes (arena (s\<lparr>arena := a'\<rparr>)) (head (s\<lparr>arena := a'\<rparr>)) = Some hn \<and>
        length (tower hn) = nat maxHeight"
    proof (cases "head s = p")
      case True
      with hn pn ndp show ?thesis by simp
    next
      case False
      with xf(2) nd' [of "head s"] hn show ?thesis by simp
    qed
  next
    fix M assume M: "M < nat maxHeight"
    show "seg (arena (s\<lparr>arena := a'\<rparr>)) M (head (s\<lparr>arena := a'\<rparr>)) (?cs' M) 0"
    proof (cases "M = L")
      case True
      with segL show ?thesis by simp
    next
      case False
      then have "seg a' M (head s) (cs M) 0 = seg ?a M (head s) (cs M) 0"
        by (intro seg_cong) (simp add: nother)
      with False inv_seg [OF inv M] show ?thesis by simp
    qed
  next
    fix M
    show "distinct (head (s\<lparr>arena := a'\<rparr>) # ?cs' M)"
    proof (cases "M = L")
      case True
      with d xf sp show ?thesis by auto
    next
      case False
      with inv_distinct [OF inv, of M] show ?thesis by simp
    qed
  next
    fix M assume "nat (height (s\<lparr>arena := a'\<rparr>)) \<le> M"
    then have "nat (height s) \<le> M" by simp
    with L inv_empty_level [OF inv this] show "?cs' M = []" by simp
  next
    fix M z assume z: "z \<in> set (?cs' (Suc M))"
    show "z \<in> set (?cs' M)"
    proof (cases "Suc M = L")
      case True
      with z have zz: "z \<in> set (us @ vs) \<or> z = x" by auto
      from True have MnL: "M \<noteq> L" "0 < L" "L - 1 = M" by simp_all
      from zz show ?thesis
      proof
        assume "z \<in> set (us @ vs)"
        then have "z \<in> set (cs (Suc M))" using sp True by simp
        then have "z \<in> set (cs M)" using inv_subset [OF inv, of M "Suc M"] by auto
        with MnL show ?thesis by simp
      next
        assume "z = x"
        with low MnL show ?thesis by simp
      qed
    next
      case False
      with z have "z \<in> set (cs (Suc M))" by simp
      then have "z \<in> set (cs M)" using inv_subset [OF inv, of M "Suc M"] by auto
      then show ?thesis using sub by blast
    qed
  next
    fix q nd
    assume q: "q \<in> set (?cs' 0)" and nd: "nodes (arena (s\<lparr>arena := a'\<rparr>)) q = Some nd"
    from nd have nd2: "nodes a' q = Some nd" by simp
    have qcases: "q = x \<or> (q \<noteq> x \<and> q \<in> set (cs 0))"
      using q sp by (cases "L = 0") auto
    have "unat (nheight nd) = length (tower nd) \<and> 1 \<le> length (tower nd) \<and>
        int (length (tower nd)) \<le> height s \<and>
        (\<forall>M r. nxt a' M q = Some r \<and> r \<noteq> 0 \<longrightarrow> q \<in> set (?cs' M))"
    proof (cases "q = x")
      case True
      with nd2 ndx have ndeq: "nd = xn\<lparr>tower := (tower xn)[L := hd0 vs]\<rparr>" by simp
      have slots: "\<forall>M r. nxt a' M x = Some r \<and> r \<noteq> 0 \<longrightarrow> x \<in> set (?cs' M)"
      proof (intro allI impI)
        fix M r assume r: "nxt a' M x = Some r \<and> r \<noteq> 0"
        show "x \<in> set (?cs' M)"
        proof (cases "M = L")
          case True
          then show ?thesis by simp
        next
          case MnL: False
          with r have ro: "nxt ?a M x = Some r" "r \<noteq> 0" by (simp_all add: nother)
          show ?thesis
          proof (cases "L = 0")
            case True
            from ro xn have "M < length (tower xn)" "tower xn ! M = r"
              by (auto simp: nxt_def split: if_splits)
            with zeros True MnL ro(2) show ?thesis by auto
          next
            case False
            then have "x \<in> set (cs 0)" using xlow by simp
            from inv_nodes_heights(4) [OF inv this xn ro] have "x \<in> set (cs M)" .
            with sub show ?thesis by blast
          qed
        qed
      qed
      from xL have "1 \<le> length (tower xn)" by simp
      with True ndeq xh slots show ?thesis by simp
    next
      case False
      with qcases have q0: "q \<in> set (cs 0)" by simp
      from inv_mem_allocated [OF inv q0] obtain nd0 where nd0: "nodes ?a q = Some nd0" by blast
      note hs = inv_nodes_heights [OF inv q0 nd0]
      have ndrel: "length (tower nd) = length (tower nd0) \<and> nheight nd = nheight nd0"
      proof (cases "q = p")
        case True
        with nd2 ndp pn nd0 show ?thesis by auto
      next
        case qp: False
        with False nd' [of q] nd2 nd0 show ?thesis by simp
      qed
      have slots: "\<forall>M r. nxt a' M q = Some r \<and> r \<noteq> 0 \<longrightarrow> q \<in> set (?cs' M)"
      proof (intro allI impI)
        fix M r assume r: "nxt a' M q = Some r \<and> r \<noteq> 0"
        show "q \<in> set (?cs' M)"
        proof (cases "q = p \<and> M = L")
          case True
          have "head s \<notin> set (cs 0)" using inv_distinct [OF inv, of 0] by simp
          with q0 True have "p \<noteq> head s" by auto
          then have "us \<noteq> []" by (auto simp: p_def)
          then have "p \<in> set us" by (simp add: p_def)
          with True show ?thesis by simp
        next
          case F2: False
          with False r have "nxt ?a M q = Some r" by (auto simp: n' split: if_splits)
          from hs(4) [OF this] r have "q \<in> set (cs M)" by simp
          with sub show ?thesis by blast
        qed
      qed
      from ndrel hs(1-3) slots show ?thesis by simp
    qed
    then show "unat (nheight nd) = length (tower nd)" and "1 \<le> length (tower nd)"
      and "int (length (tower nd)) \<le> height (s\<lparr>arena := a'\<rparr>)"
      and "\<And>M r. nxt (arena (s\<lparr>arena := a'\<rparr>)) M q = Some r \<and> r \<noteq> 0 \<Longrightarrow> q \<in> set (?cs' M)"
      by simp_all
  qed
qed

section \<open>Put: the linking loop\<close>

lemma splice_ok_cong:
  assumes "\<forall>q \<in> set qs. nkey a' q = nkey a q" and "splice_ok a h key qs p n"
  shows "splice_ok a' h key qs p n"
proof -
  from assms(2) obtain us vs where sp: "qs = us @ vs" "p = last (h # us)" "n = hd0 vs"
      "us \<noteq> [] \<longrightarrow> nkey a (last us) < key" "vs \<noteq> [] \<longrightarrow> key < nkey a (hd vs)"
    by (auto simp: splice_ok_def)
  have "us \<noteq> [] \<longrightarrow> nkey a' (last us) = nkey a (last us)"
    using assms(1) sp(1) by simp
  moreover have "vs \<noteq> [] \<longrightarrow> nkey a' (hd vs) = nkey a (hd vs)"
    using assms(1) sp(1) by simp
  ultimately show ?thesis
    unfolding splice_ok_def using sp by metis
qed

lemma arrays_ok_weaken:
  "arrays_ok a h key cs H i prev next \<Longrightarrow> arrays_ok a h key cs H (Suc i) prev next"
  by (simp add: arrays_ok_def)

lemma Put_fill_spec:
  assumes inv: "skl_inv s csi" and ok: "arrays_ok a0 (head s) key cs H i prev next"
    and same: "csi i = cs i" and emp: "\<forall>L. H \<le> L \<longrightarrow> cs L = []"
    and i: "i < nat maxHeight" and H: "1 \<le> H"
  shows "\<exists>prev1 next1. Put_fill s key (int i) prev next = Some (Inr (prev1, next1)) \<and>
           arrays_ok a0 (head s) key cs H (Suc i) prev1 next1 \<and>
           splice_ok a0 (head s) key (cs i) (prev1 ! i) (next1 ! i)"
proof -
  from ok have len: "length prev = nat (maxHeight + 1)" "length next = nat (maxHeight + 1)"
    by (simp_all add: arrays_ok_def)
  have il: "i < length prev" "i < length next"
    using i len by (simp_all add: maxHeight_def)
  have ag: "arr_get prev (int i) = Inr (prev ! i)"
    using il by (simp add: arr_get_Inr)
  show ?thesis
  proof (cases "i \<le> H")
    case True
    with ok have sok: "splice_ok a0 (head s) key (cs i) (prev ! i) (next ! i)"
      by (simp add: arrays_ok_def)
    from splice_ok_prev(1) [OF this] same have "prev ! i \<in> set (head s # csi i)" by simp
    then have "prev ! i \<noteq> 0"
      using inv_head [OF inv] inv_mem_allocated [OF inv, of "prev ! i" i] by auto
    with ag have "Put_fill s key (int i) prev next = Some (Inr (prev, next))"
      by (simp add: Put_fill_def)
    with sok arrays_ok_weaken [OF ok] show ?thesis by blast
  next
    case False
    then have Hi: "H < i" by simp
    with ok i have p0: "prev ! i = 0"
      by (simp add: arrays_ok_def)
    have e: "csi i = []"
      using same emp Hi by simp
    have "seg (arena s) i (head s) (csi i) 0"
      using inv i by (rule inv_seg)
    from findSplice_spec [OF inv_wf [OF inv] i this, of key] e
    have fs: "findSpliceForLevel s key (head s) (int i) = Some (Inr (head s, 0))"
      by simp
    have h0: "head s \<noteq> 0"
      using inv_head [OF inv] by simp
    have i1: "int i > 1"
      using Hi H by simp
    let ?prev1 = "prev[i := head s]" and ?next1 = "next[i := 0]"
    have as: "arr_set prev (int i) (head s) = Inr ?prev1" "arr_set next (int i) 0 = Inr ?next1"
      using il by (simp_all add: arr_set_Inr)
    have res: "Put_fill s key (int i) prev next = Some (Inr (?prev1, ?next1))"
      using ag p0 i1 fs as h0 by (simp add: Put_fill_def)
    have "splice_ok a0 (head s) key (cs i) (head s) 0"
      using emp Hi by (simp add: splice_ok_def hd0_def)
    then have sok: "splice_ok a0 (head s) key (cs i) (?prev1 ! i) (?next1 ! i)"
      using il by simp
    have ok1: "arrays_ok a0 (head s) key cs H (Suc i) ?prev1 ?next1"
      using ok Hi by (auto simp: arrays_ok_def)
    from res sok ok1 show ?thesis by blast
  qed
qed

lemma setTower_store:
  assumes "x \<noteq> 0" and "nodes a x = Some xn" and "i < length (tower xn)" and "i < nat maxHeight"
  shows "setTower a x (int i) v = Inr (store a x (xn\<lparr>tower := (tower xn)[i := v]\<rparr>))"
  using assms by (simp add: setTower_def deref_def)

lemma casNextOffset_swap:
  assumes "p \<noteq> 0" and "nodes a p = Some pn" and "i < length (tower pn)" and "i < nat maxHeight"
    and "tower pn ! i = old"
  shows "casNextOffset a p (int i) old v = Inr (True, store a p (pn\<lparr>tower := (tower pn)[i := v]\<rparr>))"
  using assms by (simp add: casNextOffset_def deref_def getNextOffset_def)

lemma Put_link_step:
  assumes J: "link_inv a0 cs H key x h i s csi prev next" and i: "i < nat h"
    and hm: "h \<le> maxHeight"
  shows "\<exists>s' csi' prev' next'.
           Put_link s key uid x (int i) prev next = Some (Inr (Linked s' prev' next')) \<and>
           link_inv a0 cs H key x h (Suc i) s' csi' prev' next' \<and>
           height s' = height s \<and> head s' = head s \<and> ref s' = ref s"
proof -
  let ?a = "arena s"
  from J have inv: "skl_inv s csi" and ds: "data_same a0 ?a" and hh: "h \<le> height s"
    and H1: "1 \<le> H" and ok: "arrays_ok a0 (head s) key cs H i prev next"
    and same: "\<forall>L. i \<le> L \<longrightarrow> csi L = cs L" and emp: "\<forall>L. H \<le> L \<longrightarrow> cs L = []"
    and xc: "\<forall>L. x \<notin> set (cs L)" and xh: "x \<noteq> head s"
    and lowr: "\<forall>L. L < i \<longrightarrow> (\<exists>us vs. cs L = us @ vs \<and> csi L = us @ x # vs \<and>
           (us \<noteq> [] \<longrightarrow> nkey a0 (last us) < key) \<and> (vs \<noteq> [] \<longrightarrow> key < nkey a0 (hd vs)))"
    and xnode: "\<exists>xn. nodes ?a x = Some xn \<and> length (tower xn) = nat h \<and>
        unat (nheight xn) = nat h \<and> (\<forall>L. i \<le> L \<and> L < nat h \<longrightarrow> tower xn ! L = 0)"
    unfolding link_inv_def by blast+
  from xnode obtain xn where xn: "nodes ?a x = Some xn" "length (tower xn) = nat h"
      "unat (nheight xn) = nat h" "\<forall>L. i \<le> L \<and> L < nat h \<longrightarrow> tower xn ! L = 0"
    by blast
  have im: "i < nat maxHeight"
    using i hm by linarith
  have wf: "wf_arena ?a" using inv by (rule inv_wf)
  have x0: "x \<noteq> 0" using wf xn(1) by (auto simp: wf_arena_def)
  have csi_i: "csi i = cs i" using same by simp
  from Put_fill_spec [OF inv ok csi_i emp im H1]
  obtain prev1 next1 where pf: "Put_fill s key (int i) prev next = Some (Inr (prev1, next1))"
    and ok1: "arrays_ok a0 (head s) key cs H (Suc i) prev1 next1"
    and sok: "splice_ok a0 (head s) key (cs i) (prev1 ! i) (next1 ! i)"
    by blast
  from sok obtain us vs where sp: "cs i = us @ vs" "prev1 ! i = last (head s # us)"
      "next1 ! i = hd0 vs" "us \<noteq> [] \<longrightarrow> nkey a0 (last us) < key"
      "vs \<noteq> [] \<longrightarrow> key < nkey a0 (hd vs)"
    by (auto simp: splice_ok_def)
  define p where "p = last (head s # us)"
  define n where "n = hd0 vs"
  from ok1 have len: "length prev1 = nat (maxHeight + 1)" "length next1 = nat (maxHeight + 1)"
    by (simp_all add: arrays_ok_def)
  have il: "i < length prev1" "i < length next1"
    using im len by (simp_all add: maxHeight_def)
  have agn: "arr_get next1 (int i) = Inr n"
    using il sp(3) by (simp add: arr_get_Inr n_def)
  have agp: "arr_get prev1 (int i) = Inr p"
    using il sp(2) by (simp add: arr_get_Inr p_def)
  define a1 where "a1 = store ?a x (xn\<lparr>tower := (tower xn)[i := n]\<rparr>)"
  have st: "setTower ?a x (int i) n = Inr a1"
    unfolding a1_def using x0 xn(1) _ im by (rule setTower_store) (simp add: xn(2) i)
  have pin: "p \<in> set (head s # csi i)"
    using splice_ok_prev(1) [OF sok] sp(2) csi_i by (simp add: p_def)
  then have pa: "p \<noteq> 0 \<and> (\<exists>pn. nodes ?a p = Some pn)"
    using inv_head [OF inv] inv_mem_allocated [OF inv, of p i] by auto
  then obtain pn where pn: "nodes ?a p = Some pn" by blast
  have px: "p \<noteq> x"
    using pin xh xc csi_i by auto
  have pn1: "nodes a1 p = Some pn"
    using px pn by (simp add: a1_def store_def)
  have sg: "seg ?a i (head s) (us @ vs) 0"
    using inv_seg [OF inv im] csi_i sp(1) by simp
  have pL: "nxt ?a i p = Some n"
    using seg_last [OF sg] by (simp only: hd_append_zero p_def n_def)
  with pn have pt: "i < length (tower pn)" "tower pn ! i = n"
    by (auto simp: nxt_def split: if_splits)
  define a' where "a' = store a1 p (pn\<lparr>tower := (tower pn)[i := x]\<rparr>)"
  have cas: "casNextOffset a1 p (int i) n x = Inr (True, a')"
    unfolding a'_def using pa pn1 pt(1) im pt(2) by (intro casNextOffset_swap) simp_all
  let ?s' = "s\<lparr>arena := a'\<rparr>"
  let ?csi' = "csi(i := us @ x # vs)"
  have res: "Put_link s key uid x (int i) prev next = Some (Inr (Linked ?s' prev1 next1))"
    using pf agn agp st cas
    by (subst Put_link.simps) (simp add: getNodeOffset_def)
  have hpos: "0 < h" using i by simp
  have inv': "skl_inv ?s' ?csi'"
  proof (rule inv_link [OF inv, where xn = xn and pn = pn and am = a1])
    show "i < nat (height s)" using i hh by linarith
    show "csi i = us @ vs" using csi_i sp(1) by simp
    show "nodes ?a x = Some xn" by (rule xn(1))
    show "i < length (tower xn)" using i xn(2) by simp
    show "unat (nheight xn) = length (tower xn)" using xn(2,3) by simp
    show "int (length (tower xn)) \<le> height s" using xn(2) hh hpos by simp
    show "x \<notin> set (csi i)" using xc csi_i by simp
    show "x \<noteq> head s" by (rule xh)
    show "0 < i \<longrightarrow> x \<in> set (csi (i - 1))"
    proof
      assume "0 < i"
      then have "i - 1 < i" by simp
      with lowr obtain us' vs' where "csi (i - 1) = us' @ x # vs'" by blast
      then show "x \<in> set (csi (i - 1))" by simp
    qed
    show "i = 0 \<longrightarrow> (\<forall>M. 0 < M \<and> M < length (tower xn) \<longrightarrow> tower xn ! M = 0)"
      using xn(2,4) by simp
    show "nodes ?a (last (head s # us)) = Some pn" using pn by (simp add: p_def)
    show "a1 = store ?a x (xn\<lparr>tower := (tower xn)[i := hd0 vs]\<rparr>)"
      by (simp add: a1_def n_def)
    show "a' = store a1 (last (head s # us)) (pn\<lparr>tower := (tower pn)[i := x]\<rparr>)"
      by (simp add: a'_def p_def)
  qed
  have ds1: "data_same a0 a1"
    unfolding a1_def using ds xn(1) by (rule data_same_store) simp
  have ds': "data_same a0 a'"
    unfolding a'_def using ds1 pn1 by (rule data_same_store) simp
  have xn': "nodes a' x = Some (xn\<lparr>tower := (tower xn)[i := n]\<rparr>)"
    using px by (simp add: a'_def a1_def store_def)
  have J': "link_inv a0 cs H key x h (Suc i) ?s' ?csi' prev1 next1"
    unfolding link_inv_def
  proof (intro conjI allI impI)
    show "skl_inv ?s' ?csi'" by (rule inv')
    show "data_same a0 (arena ?s')" using ds' by simp
    show "h \<le> height ?s'" using hh by simp
    show "1 \<le> H" by (rule H1)
    show "arrays_ok a0 (head ?s') key cs H (Suc i) prev1 next1" using ok1 by simp
    show "\<And>L. Suc i \<le> L \<Longrightarrow> ?csi' L = cs L" using same by simp
    show "\<And>L. H \<le> L \<Longrightarrow> cs L = []" using emp by simp
    show "\<And>L. x \<notin> set (cs L)" using xc by simp
    show "x \<noteq> head ?s'" using xh by simp
    show "\<exists>xn. nodes (arena ?s') x = Some xn \<and> length (tower xn) = nat h \<and>
        unat (nheight xn) = nat h \<and> (\<forall>L. Suc i \<le> L \<and> L < nat h \<longrightarrow> tower xn ! L = 0)"
      using xn' xn(2,3,4) by simp
  next
    fix L assume L: "L < Suc i"
    show "\<exists>us vs. cs L = us @ vs \<and> ?csi' L = us @ x # vs \<and>
        (us \<noteq> [] \<longrightarrow> nkey a0 (last us) < key) \<and> (vs \<noteq> [] \<longrightarrow> key < nkey a0 (hd vs))"
    proof (cases "L = i")
      case True
      with sp show ?thesis by auto
    next
      case False
      with L have "L < i" by simp
      with lowr False show ?thesis by simp
    qed
  qed
  from res J' show ?thesis
    by (intro exI [of _ ?s'] exI [of _ ?csi'] exI [of _ prev1] exI [of _ next1]) simp
qed

lemma Put_levels_spec:
  assumes hm: "h \<le> maxHeight"
  shows "link_inv a0 cs H key x h i s csi prev next \<Longrightarrow> i \<le> nat h \<Longrightarrow>
    \<exists>s' csi' prev' next'.
       Put_levels s key uid x h (int i) prev next = Some (Inr s') \<and>
       link_inv a0 cs H key x h (nat h) s' csi' prev' next' \<and>
       height s' = height s \<and> head s' = head s \<and> ref s' = ref s"
proof (induction "nat h - i" arbitrary: i s csi prev "next")
  case 0
  then have "i = nat h" by simp
  then have "\<not> int i < h" by simp
  then have "Put_levels s key uid x h (int i) prev next = Some (Inr s)"
    by (subst Put_levels.simps) simp
  with 0 \<open>i = nat h\<close> show ?case by blast
next
  case (Suc k)
  then have i: "i < nat h" by simp
  then have ih: "int i < h" by simp
  from Put_link_step [OF Suc.prems(1) i hm, of uid]
  obtain s1 csi1 prev1 next1 where
    pl: "Put_link s key uid x (int i) prev next = Some (Inr (Linked s1 prev1 next1))"
    and J1: "link_inv a0 cs H key x h (Suc i) s1 csi1 prev1 next1"
    and e1: "height s1 = height s" "head s1 = head s" "ref s1 = ref s"
    by blast
  have k: "k = nat h - Suc i" using Suc.hyps(2) by simp
  have "Suc i \<le> nat h" using i by simp
  from Suc.hyps(1) [OF k J1 this]
  obtain s' csi' prev' next' where
    r: "Put_levels s1 key uid x h (int (Suc i)) prev1 next1 = Some (Inr s')"
       "link_inv a0 cs H key x h (nat h) s' csi' prev' next'"
       "height s' = height s1" "head s' = head s1" "ref s' = ref s1"
    by blast
  have "Put_levels s key uid x h (int i) prev next = Some (Inr s')"
    using ih pl r(1) by (subst Put_levels.simps) (simp add: add.commute)
  with r(2-5) e1 show ?case by auto
qed

section \<open>Put\<close>

lemma Put_raise_spec:
  "Put_raise s h (height s) = Some (if h > height s then s\<lparr>height := h\<rparr> else s)"
  by (subst Put_raise.simps) simp

lemma nxt_nodes_eq: "nodes a' q = nodes a q \<Longrightarrow> nxt a' L q = nxt a L q"
  by (simp add: nxt_def)

lemma inv_not_allocated:
  assumes "skl_inv s cs" and "nodes (arena s) x = None"
  shows "x \<notin> set (head s # cs L)"
  using assms inv_head [OF assms(1)] inv_mem_allocated [OF assms(1), of x L] by auto

lemma inv_alloc:
  assumes inv: "skl_inv s cs" and fresh: "nodes (arena s) x = None"
    and nds: "\<forall>p. p \<noteq> x \<longrightarrow> nodes a' p = nodes (arena s) p" and wf': "wf_arena a'"
    and H: "height s \<le> H'" "H' \<le> maxHeight"
  shows "skl_inv (s\<lparr>arena := a', height := H'\<rparr>) cs"
proof -
  let ?a = "arena s"
  have same: "nodes a' q = nodes ?a q" if "q \<in> set (head s # cs L)" for q L
  proof -
    from that inv_not_allocated [OF inv fresh, of L] have "q \<noteq> x" by auto
    with nds show ?thesis by simp
  qed
  show ?thesis
    unfolding skl_inv_def
  proof (intro conjI allI impI ballI subsetI)
    show "wf_arena (arena (s\<lparr>arena := a', height := H'\<rparr>))" using wf' by simp
    show "1 \<le> height (s\<lparr>arena := a', height := H'\<rparr>)"
      using inv_height [OF inv] H by simp
    show "height (s\<lparr>arena := a', height := H'\<rparr>) \<le> maxHeight" using H by simp
    from inv obtain hn where "nodes ?a (head s) = Some hn" "length (tower hn) = nat maxHeight"
      by (auto simp: skl_inv_def)
    with same [of "head s" 0]
    show "\<exists>hn. nodes (arena (s\<lparr>arena := a', height := H'\<rparr>))
        (head (s\<lparr>arena := a', height := H'\<rparr>)) = Some hn \<and> length (tower hn) = nat maxHeight"
      by simp
  next
    fix L assume L: "L < nat maxHeight"
    have "seg a' L (head s) (cs L) 0 = seg ?a L (head s) (cs L) 0"
      using same by (intro seg_cong ballI nxt_nodes_eq) blast
    with inv_seg [OF inv L]
    show "seg (arena (s\<lparr>arena := a', height := H'\<rparr>)) L
        (head (s\<lparr>arena := a', height := H'\<rparr>)) (cs L) 0" by simp
  next
    fix L show "distinct (head (s\<lparr>arena := a', height := H'\<rparr>) # cs L)"
      using inv_distinct [OF inv, of L] by simp
  next
    fix L assume "nat (height (s\<lparr>arena := a', height := H'\<rparr>)) \<le> L"
    then have "nat (height s) \<le> L" using H by simp
    then show "cs L = []" using inv by (rule inv_empty_level [rotated])
  next
    fix L z assume "z \<in> set (cs (Suc L))"
    then show "z \<in> set (cs L)" using inv_subset [OF inv, of L "Suc L"] by auto
  next
    fix q nd
    assume q: "q \<in> set (cs 0)"
      and nd: "nodes (arena (s\<lparr>arena := a', height := H'\<rparr>)) q = Some nd"
    then have nd0: "nodes ?a q = Some nd" using same [of q 0] by simp
    note hs = inv_nodes_heights [OF inv q nd0]
    show "unat (nheight nd) = length (tower nd)" by (rule hs(1))
    show "1 \<le> length (tower nd)" by (rule hs(2))
    show "int (length (tower nd)) \<le> height (s\<lparr>arena := a', height := H'\<rparr>)"
      using hs(3) H by simp
    fix M r
    assume "nxt (arena (s\<lparr>arena := a', height := H'\<rparr>)) M q = Some r \<and> r \<noteq> 0"
    moreover have "nxt a' M q = nxt ?a M q"
      using same [of q 0] q by (intro nxt_nodes_eq) simp
    ultimately show "q \<in> set (cs M)" using hs(4) by simp
  qed
qed

lemma inv_assignValue:
  assumes inv: "skl_inv s cs" and nd: "nodes (arena s) q = Some nd"
  shows "skl_inv (s\<lparr>arena := store (arena s) q (nd\<lparr>nvalue := uid\<rparr>)\<rparr>) cs"
proof -
  let ?a = "arena s"
  let ?a' = "store ?a q (nd\<lparr>nvalue := uid\<rparr>)"
  have nx: "\<And>M p. nxt ?a' M p = nxt ?a M p"
    using nd by (auto simp: nxt_def store_def)
  have wf': "wf_arena ?a'"
    using inv_wf [OF inv] nd unfolding wf_arena_def store_def by (auto split: if_splits)
  have len: "\<And>p n'. nodes ?a' p = Some n' \<Longrightarrow>
      \<exists>n0. nodes ?a p = Some n0 \<and> tower n' = tower n0 \<and> nheight n' = nheight n0"
    using nd by (auto simp: store_def split: if_splits)
  show ?thesis
    unfolding skl_inv_def
  proof (intro conjI allI impI ballI subsetI)
    show "wf_arena (arena (s\<lparr>arena := ?a'\<rparr>))" using wf' by simp
    show "1 \<le> height (s\<lparr>arena := ?a'\<rparr>)" "height (s\<lparr>arena := ?a'\<rparr>) \<le> maxHeight"
      using inv_height [OF inv] by simp_all
    from inv obtain hn where "nodes ?a (head s) = Some hn" "length (tower hn) = nat maxHeight"
      by (auto simp: skl_inv_def)
    with nd show "\<exists>hn. nodes (arena (s\<lparr>arena := ?a'\<rparr>)) (head (s\<lparr>arena := ?a'\<rparr>)) = Some hn \<and>
        length (tower hn) = nat maxHeight"
      by (auto simp: store_def)
  next
    fix L assume L: "L < nat maxHeight"
    have "seg ?a' L (head s) (cs L) 0 = seg ?a L (head s) (cs L) 0"
      by (intro seg_cong ballI nx)
    with inv_seg [OF inv L]
    show "seg (arena (s\<lparr>arena := ?a'\<rparr>)) L (head (s\<lparr>arena := ?a'\<rparr>)) (cs L) 0" by simp
  next
    fix L show "distinct (head (s\<lparr>arena := ?a'\<rparr>) # cs L)"
      using inv_distinct [OF inv, of L] by simp
  next
    fix L assume "nat (height (s\<lparr>arena := ?a'\<rparr>)) \<le> L"
    then have "nat (height s) \<le> L" by simp
    then show "cs L = []" using inv by (rule inv_empty_level [rotated])
  next
    fix L z assume "z \<in> set (cs (Suc L))"
    then show "z \<in> set (cs L)" using inv_subset [OF inv, of L "Suc L"] by auto
  next
    fix p n'
    assume p: "p \<in> set (cs 0)" and n': "nodes (arena (s\<lparr>arena := ?a'\<rparr>)) p = Some n'"
    from len [of p n'] n' obtain n0 where n0: "nodes ?a p = Some n0" "tower n' = tower n0"
        "nheight n' = nheight n0" by auto
    note hs = inv_nodes_heights [OF inv p n0(1)]
    show "unat (nheight n') = length (tower n')" using hs(1) n0 by simp
    show "1 \<le> length (tower n')" using hs(2) n0 by simp
    show "int (length (tower n')) \<le> height (s\<lparr>arena := ?a'\<rparr>)" using hs(3) n0 by simp
    fix M r
    assume "nxt (arena (s\<lparr>arena := ?a'\<rparr>)) M p = Some r \<and> r \<noteq> 0"
    then show "p \<in> set (cs M)" using hs(4) by (simp add: nx)
  qed
qed

lemma assignValue_data:
  assumes "nodes a q = Some nd"
  shows "nkey (store a q (nd\<lparr>nvalue := uid\<rparr>)) p = nkey a p"
    and "nval (store a q (nd\<lparr>nvalue := uid\<rparr>)) p = (if p = q then uid else nval a p)"
  using assms by (auto simp: nkey_def nval_def store_def split: option.splits)

lemma arrays_ok_init:
  assumes inv: "skl_inv s cs" and H: "H = nat (height s)"
  shows "arrays_ok (arena s) (head s) key cs H H
           ((replicate (nat (maxHeight + 1)) 0)[H := head s])
           ((replicate (nat (maxHeight + 1)) 0)[H := 0])"
proof -
  from inv_height [OF inv] H have Hm: "H \<le> nat maxHeight" by linarith
  then have Hl: "H < nat (maxHeight + 1)" by (simp add: maxHeight_def)
  have e: "cs H = []" using inv_empty_level [OF inv, of H] H by simp
  have sok: "splice_ok (arena s) (head s) key (cs H) (head s) 0"
    using e by (simp add: splice_ok_def hd0_def)
  show ?thesis
    unfolding arrays_ok_def
  proof (intro conjI allI impI)
    fix j assume "H \<le> j \<and> j \<le> H"
    then have "j = H" by simp
    with sok Hl show "splice_ok (arena s) (head s) key (cs j)
        ((replicate (nat (maxHeight + 1)) 0)[H := head s] ! j)
        ((replicate (nat (maxHeight + 1)) 0)[H := 0] ! j)" by simp
  next
    fix j assume "H < j \<and> H \<le> j \<and> j \<le> nat maxHeight"
    then show "(replicate (nat (maxHeight + 1)) 0)[H := head s] ! j = (0 :: 32 word)"
      by (simp add: maxHeight_def)
  qed simp_all
qed

lemma alloc_keys_same:
  assumes wf: "wf_arena a" and q: "nodes a q = Some nd" and fresh: "nodes a x = None"
    and nds: "nodes a0 = (nodes a)(x \<mapsto> xn)" and bufs: "\<forall>i < cursor a. buf a0 i = buf a i"
  shows "nkey a0 q = nkey a q" and "nval a0 q = nval a q"
proof -
  from q fresh have qx: "q \<noteq> x" by auto
  with nds q have q0: "nodes a0 q = Some nd" by simp
  show "nkey a0 q = nkey a q"
    using wf q q0 _ _ bufs by (rule nkey_frame) simp_all
  show "nval a0 q = nval a q"
    using q q0 by (simp add: nval_def)
qed

lemma Put_spec:
  assumes inv: "skl_inv s cs"
  shows "(\<exists>q nd. q \<in> set (cs 0) \<and> nkey (arena s) q = key \<and> nodes (arena s) q = Some nd \<and>
            Put s key uid rnd =
              Some (Inr (s\<lparr>arena := store (arena s) q (nd\<lparr>nvalue := uid\<rparr>)\<rparr>))) \<or>
         (Put s key uid rnd = Some (Inl ArenaFull) \<and>
            (\<exists>p n. splice_ok (arena s) (head s) key (cs 0) p n)) \<or>
         (\<exists>s' cs' x. Put s key uid rnd = Some (Inr s') \<and>
            put_new s cs key uid (randomHeight rnd) s' cs' x)"
proof -
  let ?a = "arena s"
  define H where "H = nat (height s)"
  define h where "h = randomHeight rnd"
  let ?zeros = "replicate (nat (maxHeight + 1)) (0 :: 32 word)"
  let ?prev = "?zeros[H := head s]" and ?next = "?zeros[H := 0]"
  have wf: "wf_arena ?a" using inv by (rule inv_wf)
  from inv_height [OF inv] have hs: "1 \<le> height s" "height s \<le> maxHeight" by simp_all
  then have Hh: "int H = height s" and H1: "1 \<le> H" and Hm: "H \<le> nat maxHeight"
    unfolding H_def by linarith+
  have Hl: "nat (height s) < length ?zeros"
    using hs by (simp add: maxHeight_def)
  have as: "arr_set ?zeros (height s) (head s) = Inr ?prev"
      "arr_set ?zeros (height s) 0 = Inr ?next"
    using hs Hl by (simp_all add: arr_set_Inr H_def)
  have ok: "arrays_ok ?a (head s) key cs H H ?prev ?next"
    using inv H_def by (rule arrays_ok_init)
  have hb: "1 \<le> h" "h \<le> maxHeight"
    unfolding h_def using randomHeight_bounds [of rnd] by simp_all
  have ps: "Put_search s key uid ?prev ?next (height s - 1) =
      Put_search s key uid ?prev ?next (int H - 1)"
    using Hh by simp
  have PutE: "Put s key uid rnd =
     (case Put_search s key uid ?prev ?next (int H - 1) of
        None \<Rightarrow> None
      | Some (Inl e) \<Rightarrow> Some (Inl e)
      | Some (Inr (Overwritten s')) \<Rightarrow> Some (Inr s')
      | Some (Inr (Splices prev' next')) \<Rightarrow>
          (case newNodeMmap ?a key uid h of
             Inl e \<Rightarrow> Some (Inl e)
           | Inr (x, a') \<Rightarrow>
               (case Put_raise (s\<lparr>arena := a'\<rparr>) h (height s) of
                  None \<Rightarrow> None
                | Some s1 \<Rightarrow> Put_levels s1 key uid x h 0 prev' next')))"
    by (simp only: Put_def Let_def as sum.case ps h_def)
  from Put_search_spec [OF inv H_def le_refl ok, of uid]
  show ?thesis
  proof
    assume "\<exists>q nd. q \<in> set (cs 0) \<and> nkey ?a q = key \<and> nodes ?a q = Some nd \<and>
        Put_search s key uid ?prev ?next (int H - 1) =
          Some (Inr (Overwritten (s\<lparr>arena := store ?a q (nd\<lparr>nvalue := uid\<rparr>)\<rparr>)))"
    then obtain q nd where q: "q \<in> set (cs 0)" "nkey ?a q = key" "nodes ?a q = Some nd"
      "Put_search s key uid ?prev ?next (int H - 1) =
          Some (Inr (Overwritten (s\<lparr>arena := store ?a q (nd\<lparr>nvalue := uid\<rparr>)\<rparr>)))"
      by blast
    have "Put s key uid rnd = Some (Inr (s\<lparr>arena := store ?a q (nd\<lparr>nvalue := uid\<rparr>)\<rparr>))"
      by (simp only: PutE q(4) option.case sum.case search_result.case)
    with q(1-3) show ?thesis by blast
  next
    assume "\<exists>prev' next'. Put_search s key uid ?prev ?next (int H - 1) =
        Some (Inr (Splices prev' next')) \<and> arrays_ok ?a (head s) key cs H 0 prev' next'"
    then obtain prev' next' where
      sr: "Put_search s key uid ?prev ?next (int H - 1) = Some (Inr (Splices prev' next'))"
      and ok0: "arrays_ok ?a (head s) key cs H 0 prev' next'"
      by blast
    from newNodeMmap_cases [OF wf _ hb(2), of key uid] hb(1)
    have "newNodeMmap ?a key uid h = Inl ArenaFull \<or>
      (\<exists>x a' ko. newNodeMmap ?a key uid h = Inr (x, a') \<and> x \<noteq> 0 \<and> nodes ?a x = None \<and>
         wf_arena a' \<and> capacity a' = capacity ?a \<and> cursor ?a \<le> cursor a' \<and>
         nodes a' = (nodes ?a)(x \<mapsto> \<lparr>nvalue = uid, keyOffset = ko,
            keySize = of_nat (length key), nheight = of_int h, tower = replicate (nat h) 0\<rparr>) \<and>
         (\<forall>i < cursor ?a. buf a' i = buf ?a i) \<and>
         nkey a' x = take (length key mod 65536) key)"
      by simp
    then show ?thesis
    proof
      assume "newNodeMmap ?a key uid h = Inl ArenaFull"
      then have "Put s key uid rnd = Some (Inl ArenaFull)"
        by (simp only: PutE sr option.case sum.case search_result.case)
      moreover have "splice_ok ?a (head s) key (cs 0) (prev' ! 0) (next' ! 0)"
        using ok0 by (simp add: arrays_ok_def)
      ultimately show ?thesis by blast
    next
      assume "\<exists>x a' ko. newNodeMmap ?a key uid h = Inr (x, a') \<and> x \<noteq> 0 \<and> nodes ?a x = None \<and>
         wf_arena a' \<and> capacity a' = capacity ?a \<and> cursor ?a \<le> cursor a' \<and>
         nodes a' = (nodes ?a)(x \<mapsto> \<lparr>nvalue = uid, keyOffset = ko,
            keySize = of_nat (length key), nheight = of_int h, tower = replicate (nat h) 0\<rparr>) \<and>
         (\<forall>i < cursor ?a. buf a' i = buf ?a i) \<and>
         nkey a' x = take (length key mod 65536) key"
      then obtain x a0 ko where
        nn: "newNodeMmap ?a key uid h = Inr (x, a0)" and x0: "x \<noteq> 0"
        and fresh: "nodes ?a x = None" and wf0: "wf_arena a0"
        and cap0: "capacity a0 = capacity ?a" and cur0: "cursor ?a \<le> cursor a0"
        and nds: "nodes a0 = (nodes ?a)(x \<mapsto> \<lparr>nvalue = uid, keyOffset = ko,
            keySize = of_nat (length key), nheight = of_int h, tower = replicate (nat h) 0\<rparr>)"
        and bufs: "\<forall>i < cursor ?a. buf a0 i = buf ?a i"
        and xkey: "nkey a0 x = take (length key mod 65536) key"
        by blast
      define s1 where "s1 = s\<lparr>arena := a0, height := max (height s) h\<rparr>"
      have pr: "Put_raise (s\<lparr>arena := a0\<rparr>) h (height s) = Some s1"
        using Put_raise_spec [of "s\<lparr>arena := a0\<rparr>" h] by (simp add: s1_def max_def)
      have inv1: "skl_inv s1 cs"
        unfolding s1_def using inv fresh _ wf0
        by (rule inv_alloc) (use nds hs hb in simp_all)
      have old: "nkey a0 q = nkey ?a q \<and> nval a0 q = nval ?a q" if "nodes ?a q \<noteq> None" for q
      proof -
        from that obtain nd where "nodes ?a q = Some nd" by auto
        from alloc_keys_same [OF wf this fresh nds bufs] show ?thesis by simp
      qed
      have chain_old: "nkey a0 q = nkey ?a q" if "q \<in> set (cs L)" for q L
        using old [of q] inv_mem_allocated [OF inv that] by auto
      have xnot: "\<forall>L. x \<notin> set (cs L)" and xh: "x \<noteq> head s"
        using inv_not_allocated [OF inv fresh] by auto
      have ok1: "arrays_ok a0 (head s) key cs H 0 prev' next'"
        unfolding arrays_ok_def
      proof (intro conjI allI impI)
        fix j assume "0 \<le> j \<and> j \<le> H"
        with ok0 have "splice_ok ?a (head s) key (cs j) (prev' ! j) (next' ! j)"
          by (simp add: arrays_ok_def)
        then show "splice_ok a0 (head s) key (cs j) (prev' ! j) (next' ! j)"
          by (rule splice_ok_cong [rotated]) (simp add: chain_old)
      qed (use ok0 in \<open>simp_all add: arrays_ok_def\<close>)
      have uh: "unat (of_int h :: 16 word) = nat h"
      proof -
        have "of_int h = (of_nat (nat h) :: 16 word)" using hb by simp
        moreover have "nat h < 2 ^ 16" using hb by (simp add: maxHeight_def)
        ultimately show ?thesis by (simp add: unat_of_nat)
      qed
      have J0: "link_inv a0 cs H key x h 0 s1 cs prev' next'"
        unfolding link_inv_def
      proof (intro conjI allI impI)
        show "skl_inv s1 cs" by (rule inv1)
        show "data_same a0 (arena s1)" by (simp add: s1_def data_same_refl)
        show "h \<le> height s1" by (simp add: s1_def)
        show "1 \<le> H" by (rule H1)
        show "arrays_ok a0 (head s1) key cs H 0 prev' next'" using ok1 by (simp add: s1_def)
        show "\<And>L. H \<le> L \<Longrightarrow> cs L = []"
          using inv_empty_level [OF inv] by (simp add: H_def)
        show "\<And>L. x \<notin> set (cs L)" using xnot by simp
        show "x \<noteq> head s1" using xh by (simp add: s1_def)
        show "\<exists>xn. nodes (arena s1) x = Some xn \<and> length (tower xn) = nat h \<and>
            unat (nheight xn) = nat h \<and> (\<forall>L. 0 \<le> L \<and> L < nat h \<longrightarrow> tower xn ! L = 0)"
          using nds uh by (simp add: s1_def)
      qed simp_all
      have "0 \<le> nat h" by simp
      from Put_levels_spec [OF hb(2) J0 this, of uid]
      obtain s' cs' prev2 next2 where
        pl: "Put_levels s1 key uid x h (int 0) prev' next' = Some (Inr s')"
        and J: "link_inv a0 cs H key x h (nat h) s' cs' prev2 next2"
        and e: "height s' = height s1" "head s' = head s1" "ref s' = ref s1"
        by blast
      have res: "Put s key uid rnd = Some (Inr s')"
        using pl by (simp only: PutE sr nn pr option.case sum.case search_result.case prod.case)
          simp
      from J have inv': "skl_inv s' cs'" and ds: "data_same a0 (arena s')"
        and up: "\<forall>L. nat h \<le> L \<longrightarrow> cs' L = cs L"
        and lowr: "\<forall>L. L < nat h \<longrightarrow> (\<exists>us vs. cs L = us @ vs \<and> cs' L = us @ x # vs \<and>
           (us \<noteq> [] \<longrightarrow> nkey a0 (last us) < key) \<and> (vs \<noteq> [] \<longrightarrow> key < nkey a0 (hd vs)))"
        unfolding link_inv_def by blast+
      have levels: "\<forall>L. if L < nat h
          then (\<exists>us vs. cs L = us @ vs \<and> cs' L = us @ x # vs \<and>
                  (us \<noteq> [] \<longrightarrow> nkey ?a (last us) < key) \<and>
                  (vs \<noteq> [] \<longrightarrow> key < nkey ?a (hd vs)))
          else cs' L = cs L"
      proof
        fix L
        show "if L < nat h
          then (\<exists>us vs. cs L = us @ vs \<and> cs' L = us @ x # vs \<and>
                  (us \<noteq> [] \<longrightarrow> nkey ?a (last us) < key) \<and>
                  (vs \<noteq> [] \<longrightarrow> key < nkey ?a (hd vs)))
          else cs' L = cs L"
        proof (cases "L < nat h")
          case True
          with lowr obtain us vs where sp: "cs L = us @ vs" "cs' L = us @ x # vs"
            "us \<noteq> [] \<longrightarrow> nkey a0 (last us) < key" "vs \<noteq> [] \<longrightarrow> key < nkey a0 (hd vs)"
            by blast
          have "us \<noteq> [] \<longrightarrow> nkey a0 (last us) = nkey ?a (last us)"
            using chain_old [of "last us" L] sp(1) by simp
          moreover have "vs \<noteq> [] \<longrightarrow> nkey a0 (hd vs) = nkey ?a (hd vs)"
            using chain_old [of "hd vs" L] sp(1) by simp
          ultimately have "cs L = us @ vs \<and> cs' L = us @ x # vs \<and>
              (us \<noteq> [] \<longrightarrow> nkey ?a (last us) < key) \<and> (vs \<noteq> [] \<longrightarrow> key < nkey ?a (hd vs))"
            using sp by metis
          with True show ?thesis by auto
        next
          case False
          with up show ?thesis by simp
        qed
      qed
      have data: "\<forall>q. nodes ?a q \<noteq> None \<longrightarrow>
          nkey (arena s') q = nkey ?a q \<and> nval (arena s') q = nval ?a q"
        using old by (simp add: data_same_nkey [OF ds] data_same_nval [OF ds])
      have xk: "nkey (arena s') x = take (length key mod 65536) key"
        using xkey by (simp add: data_same_nkey [OF ds])
      have xv: "nval (arena s') x = uid"
      proof -
        have "nval a0 x = uid" using nds by (simp add: nval_def)
        then show ?thesis by (simp only: data_same_nval [OF ds])
      qed
      have cur: "cursor ?a \<le> cursor (arena s')" "capacity (arena s') = capacity ?a"
        using ds cur0 cap0 by (simp_all add: data_same_def)
      have "put_new s cs key uid h s' cs' x"
        unfolding put_new_def
        using inv' e fresh cur levels data xk xv by (simp add: s1_def)
      with res show ?thesis
        unfolding h_def by blast
    qed
  qed
qed

section \<open>The invariant from the constructor on\<close>

lemma new_inv:
  assumes new: "NewSkiplistMmap C = Inr s" and C: "C < 2 ^ 32"
  shows "skl_inv s (\<lambda>_. [])" and "skl_sorted s (\<lambda>_. [])" and "height s = 1"
proof -
  define a where "a = \<lparr>cursor = 1, capacity = nat C, nodes = (\<lambda>_. None), buf = (\<lambda>_. 0)\<rparr>"
  from new have C0: "0 \<le> C" and na: "newArenaMmap C = Inr a"
    by (auto simp: NewSkiplistMmap_def newArenaMmap_def a_def split: if_splits)
  have cap: "1 \<le> nat C"
  proof (rule ccontr)
    assume "\<not> 1 \<le> nat C"
    then have "nat C = 0" by simp
    then have "newNodeMmap a [] 0 maxHeight = Inl ArenaFull"
      by (simp add: newNodeMmap_def putNode_def reserve_def Let_def a_def nodeAlign_def
          headerSize_def offsetSize_def maxHeight_def)
    with new na show False
      by (simp add: NewSkiplistMmap_def)
  qed
  have "nat C < 2 ^ 32"
    using C C0 by (simp add: nat_less_iff)
  with cap have wf: "wf_arena a"
    by (simp add: wf_arena_def a_def)
  have m: "(0::int) \<le> maxHeight" "maxHeight \<le> maxHeight"
    by (simp_all add: maxHeight_def)
  from newNodeMmap_cases [OF wf m, of "[]" 0] new na
  obtain x a' ko where
    nn: "newNodeMmap a [] 0 maxHeight = Inr (x, a')" and x0: "x \<noteq> 0"
    and wf': "wf_arena a'"
    and nds: "nodes a' = (nodes a)(x \<mapsto> \<lparr>nvalue = 0, keyOffset = ko,
        keySize = of_nat (length ([] :: 8 word list)), nheight = of_int maxHeight,
        tower = replicate (nat maxHeight) 0\<rparr>)"
    by (auto simp: NewSkiplistMmap_def)
  from new na nn have s: "s = \<lparr>height = 1, head = x, ref = 1, arena = a'\<rparr>"
    by (simp add: NewSkiplistMmap_def)
  have nx: "\<And>L. L < nat maxHeight \<Longrightarrow> nxt a' L x = Some 0"
    using nds by (simp add: nxt_def)
  show "skl_inv s (\<lambda>_. [])"
    unfolding skl_inv_def using wf' x0 nds nx by (simp add: s maxHeight_def)
  show "skl_sorted s (\<lambda>_. [])"
    by (simp add: skl_sorted_def)
  show "height s = 1"
    by (simp add: s)
qed

lemma reach_base: "reach s p \<Longrightarrow> skl_inv s cs \<Longrightarrow> p \<in> set (cs 0)"
proof (induction rule: reach.induct)
  case (reach_head s level p)
  let ?L = "nat level"
  from getNext_Inr_nxt [OF reach_head(1)]
  have lv: "?L < nat maxHeight" and nx: "nxt (arena s) ?L (head s) = Some p"
    by simp_all
  from seg_start [OF inv_seg [OF reach_head(3) lv]] nx
  have "hd0 (cs ?L) = p"
    by (simp add: hd_append_zero)
  with reach_head(2) have "p \<in> set (cs ?L)"
    by (cases "cs ?L") (simp_all add: hd0_def)
  with reach_head(3) show ?case
    by (rule inv_mem_base)
next
  case (reach_step s q level p)
  let ?L = "nat level"
  have q0: "q \<in> set (cs 0)"
    using reach_step by simp
  from getNext_Inr_nxt [OF reach_step(2)]
  have lv: "?L < nat maxHeight" and nx: "nxt (arena s) ?L q = Some p"
    by simp_all
  from inv_mem_allocated [OF reach_step(5) q0] obtain nd where nd: "nodes (arena s) q = Some nd"
    by blast
  have qL: "q \<in> set (cs ?L)"
    using reach_step(5) q0 nd nx reach_step(3) by (rule inv_nodes_heights(4))
  then have "q \<in> set (head s # cs ?L)"
    by simp
  from seg_split_mem [OF inv_seg [OF reach_step(5) lv] this]
  obtain us zs where sp: "head s # cs ?L = us @ q # zs" and sg: "seg (arena s) ?L q zs 0"
    by blast
  from seg_start [OF sg] nx have "hd0 zs = p"
    by (simp add: hd_append_zero)
  with reach_step(3) have "p \<in> set zs"
    by (cases zs) (simp_all add: hd0_def)
  moreover have "set zs \<subseteq> set (cs ?L)"
    using sp by (cases us) auto
  ultimately have "p \<in> set (cs ?L)"
    by blast
  with reach_step(5) show ?case
    by (rule inv_mem_base)
qed

lemma reach_first:
  assumes inv: "skl_inv s cs" and ne: "cs 0 \<noteq> []"
  shows "reach s (hd (cs 0))"
proof -
  have mh: "0 < nat maxHeight"
    by (simp add: maxHeight_def)
  from seg_start [OF inv_seg [OF inv mh]] ne
  have h0: "head s \<noteq> 0" and nx: "nxt (arena s) 0 (head s) = Some (hd (cs 0))"
    by simp_all
  have "hd (cs 0) \<in> set (cs 0)"
    using ne by simp
  from inv_mem_allocated [OF inv this] have p0: "hd (cs 0) \<noteq> 0"
    by simp
  from getNext_nxt [OF h0 nx mh] have "getNext s (head s) 0 = Inr (hd (cs 0))"
    by simp
  then show ?thesis
    using p0 by (rule reach_head)
qed

lemma reach_iff: "skl_inv s cs \<Longrightarrow> (\<exists>p. reach s p) \<longleftrightarrow> cs 0 \<noteq> []"
  using reach_base [of s _ cs] reach_first [of s cs] by fastforce

section \<open>Put keeps the invariant\<close>

lemma Put_struct:
  assumes inv: "skl_inv s cs"
  shows "Put s key uid rnd = Some (Inl ArenaFull) \<or>
         (\<exists>s' cs'. Put s key uid rnd = Some (Inr s') \<and> skl_inv s' cs' \<and> cs' 0 \<noteq> [] \<and>
            head s' = head s \<and> ref s' = ref s \<and> height s \<le> height s' \<and>
            capacity (arena s') = capacity (arena s))"
proof -
  from Put_spec [OF inv, of key uid rnd]
  consider
    (over) q nd where "q \<in> set (cs 0)" "nodes (arena s) q = Some nd"
      "Put s key uid rnd = Some (Inr (s\<lparr>arena := store (arena s) q (nd\<lparr>nvalue := uid\<rparr>)\<rparr>))"
  | (full) "Put s key uid rnd = Some (Inl ArenaFull)"
  | (new) s' cs' x where "Put s key uid rnd = Some (Inr s')"
      "put_new s cs key uid (randomHeight rnd) s' cs' x"
    by blast
  then show ?thesis
  proof cases
    case over
    let ?s = "s\<lparr>arena := store (arena s) q (nd\<lparr>nvalue := uid\<rparr>)\<rparr>"
    have "skl_inv ?s cs"
      using inv over(2) by (rule inv_assignValue)
    moreover have "cs 0 \<noteq> []"
      using over(1) by auto
    moreover have "capacity (arena ?s) = capacity (arena s)"
      by (simp add: store_def)
    ultimately show ?thesis
      using over(3) by auto
  next
    case full
    then show ?thesis by simp
  next
    case new
    have h: "0 < nat (randomHeight rnd)"
      using randomHeight_bounds [of rnd] by simp
    from new(2) have inv': "skl_inv s' cs'"
      and e: "head s' = head s" "ref s' = ref s" "height s' = max (height s) (randomHeight rnd)"
        "capacity (arena s') = capacity (arena s)"
      and lv: "\<forall>L. if L < nat (randomHeight rnd)
          then (\<exists>us vs. cs L = us @ vs \<and> cs' L = us @ x # vs \<and>
                  (us \<noteq> [] \<longrightarrow> nkey (arena s) (last us) < key) \<and>
                  (vs \<noteq> [] \<longrightarrow> key < nkey (arena s) (hd vs)))
          else cs' L = cs L"
      unfolding put_new_def by blast+
    from lv h have "\<exists>us vs. cs' 0 = us @ x # vs"
      by (metis (full_types))
    then have "cs' 0 \<noteq> []"
      by auto
    with new(1) inv' e show ?thesis
      by auto
  qed
qed

lemma Puts_struct:
  "skl_inv s cs \<Longrightarrow> Puts s ops = Some (Inr s') \<Longrightarrow>
     \<exists>cs'. skl_inv s' cs' \<and> (ops \<noteq> [] \<or> cs 0 \<noteq> [] \<longrightarrow> cs' 0 \<noteq> []) \<and>
        (ops = [] \<longrightarrow> cs' = cs) \<and>
        head s' = head s \<and> ref s' = ref s \<and> height s \<le> height s' \<and>
        capacity (arena s') = capacity (arena s)"
proof (induction ops arbitrary: s cs)
  case Nil
  then show ?case by auto
next
  case (Cons op ops)
  obtain k v rnd where op: "op = (k, v, rnd)"
    by (cases op) auto
  from Put_struct [OF Cons.prems(1), of k v rnd] Cons.prems(2) op
  obtain s1 cs1 where p: "Put s k v rnd = Some (Inr s1)" "skl_inv s1 cs1" "cs1 0 \<noteq> []"
      "head s1 = head s" "ref s1 = ref s" "height s \<le> height s1"
      "capacity (arena s1) = capacity (arena s)"
    by auto
  from Cons.prems(2) op p(1) have "Puts s1 ops = Some (Inr s')"
    by simp
  from Cons.IH [OF p(2) this] p(3-7) show ?case
    by auto
qed

lemma Puts_total:
  "skl_inv s cs \<Longrightarrow>
     Puts s ops = Some (Inl ArenaFull) \<or> (\<exists>s'. Puts s ops = Some (Inr s'))"
proof (induction ops arbitrary: s cs)
  case Nil
  then show ?case by simp
next
  case (Cons op ops)
  obtain k v rnd where op: "op = (k, v, rnd)"
    by (cases op) auto
  from Put_struct [OF Cons.prems, of k v rnd]
  show ?case
  proof
    assume "Put s k v rnd = Some (Inl ArenaFull)"
    with op show ?thesis by simp
  next
    assume "\<exists>s' cs'. Put s k v rnd = Some (Inr s') \<and> skl_inv s' cs' \<and> cs' 0 \<noteq> [] \<and>
            head s' = head s \<and> ref s' = ref s \<and> height s \<le> height s' \<and>
            capacity (arena s') = capacity (arena s)"
    then obtain s1 cs1 where p: "Put s k v rnd = Some (Inr s1)" "skl_inv s1 cs1"
      by blast
    from Cons.IH [OF p(2)] p(1) op show ?thesis
      by simp
  qed
qed

section \<open>Put keeps the chains sorted\<close>

lemma sorted_insert:
  fixes f g :: "'a \<Rightarrow> 8 word list"
  assumes so: "sorted_wrt (<) (map f (us @ vs))"
    and lo: "us \<noteq> [] \<longrightarrow> f (last us) < k" and hi: "vs \<noteq> [] \<longrightarrow> k < f (hd vs)"
    and same: "\<forall>q \<in> set (us @ vs). g q = f q" and x: "g x = k"
  shows "sorted_wrt (<) (map g (us @ x # vs))"
proof -
  from sorted_split_bounds [OF so lo hi]
  have u: "\<forall>u \<in> set us. f u < k" and v: "\<forall>v \<in> set vs. k < f v"
    by blast+
  have e: "map g us = map f us" "map g vs = map f vs"
    using same by simp_all
  from so have "sorted_wrt (<) (map f us)" "sorted_wrt (<) (map f vs)"
    "\<forall>a \<in> set us. \<forall>b \<in> set vs. f a < f b"
    by (auto simp: sorted_wrt_append)
  with u v show ?thesis
    by (auto simp: sorted_wrt_append e x)
qed

lemma map_of_insert:
  "k \<notin> fst ` set xs \<Longrightarrow> map_of (xs @ (k, v) # ys) = (map_of (xs @ ys))(k \<mapsto> v)"
proof (induction xs)
  case Nil
  then show ?case by simp
next
  case (Cons a xs)
  then show ?case
    by (cases a) (auto simp: fun_upd_twist)
qed

lemma map_of_update_value:
  "distinct (map f qs) \<Longrightarrow> q \<in> set qs \<Longrightarrow>
     map_of (map (\<lambda>p. (f p, if p = q then v else g p)) qs) =
       (map_of (map (\<lambda>p. (f p, g p)) qs))(f q \<mapsto> v)"
proof (induction qs)
  case Nil
  then show ?case by simp
next
  case (Cons a qs)
  show ?case
  proof (cases "a = q")
    case True
    with Cons.prems(1) have "q \<notin> set qs"
      by auto
    then have e: "map (\<lambda>p. (f p, if p = q then v else g p)) qs = map (\<lambda>p. (f p, g p)) qs"
      by (intro map_cong) auto
    show ?thesis
      using True by (auto simp: e fun_eq_iff)
  next
    case False
    with Cons.prems have q: "q \<in> set qs" and d: "distinct (map f qs)" and "f a \<notin> f ` set qs"
      by auto
    then have "f a \<noteq> f q"
      by auto
    with Cons.IH [OF d q] False show ?thesis
      by (auto simp: fun_eq_iff)
  qed
qed

lemma sorted_keys_distinct:
  fixes f :: "'a \<Rightarrow> 8 word list"
  shows "sorted_wrt (<) (map f qs) \<Longrightarrow> distinct (map f qs)"
  by (induction qs) auto

lemma entries_cong:
  "\<forall>q \<in> set qs. nkey a' q = nkey a q \<and> nval a' q = nval a q \<Longrightarrow> entries a' qs = entries a qs"
  by (simp add: entries_def)

lemma entries_keys: "fst ` set (entries a qs) = nkey a ` set qs"
  by (force simp: entries_def)

lemma Put_model:
  assumes inv: "skl_inv s cs" and srt: "skl_sorted s cs" and len: "length key < 65536"
  shows "(key \<notin> nkey (arena s) ` set (cs 0) \<and> Put s key uid rnd = Some (Inl ArenaFull)) \<or>
     (\<exists>s' cs'. Put s key uid rnd = Some (Inr s') \<and> skl_inv s' cs' \<and> skl_sorted s' cs' \<and>
        map_of (entries (arena s') (cs' 0)) = (map_of (entries (arena s) (cs 0)))(key \<mapsto> uid) \<and>
        head s' = head s \<and> ref s' = ref s \<and> capacity (arena s') = capacity (arena s) \<and>
        (key \<in> nkey (arena s) ` set (cs 0) \<longrightarrow>
           (\<exists>q nd. q \<in> set (cs 0) \<and> nkey (arena s) q = key \<and> nodes (arena s) q = Some nd \<and>
              s' = s\<lparr>arena := store (arena s) q (nd\<lparr>nvalue := uid\<rparr>)\<rparr>)))"
proof -
  let ?a = "arena s"
  have so: "\<And>L. sorted_wrt (<) (map (nkey ?a) (cs L))"
    using srt by (simp add: skl_sorted_def)
  from Put_spec [OF inv, of key uid rnd]
  consider
    (over) q nd where "q \<in> set (cs 0)" "nkey ?a q = key" "nodes ?a q = Some nd"
      "Put s key uid rnd = Some (Inr (s\<lparr>arena := store ?a q (nd\<lparr>nvalue := uid\<rparr>)\<rparr>))"
  | (full) p n where "Put s key uid rnd = Some (Inl ArenaFull)"
      "splice_ok ?a (head s) key (cs 0) p n"
  | (new) s' cs' x where "Put s key uid rnd = Some (Inr s')"
      "put_new s cs key uid (randomHeight rnd) s' cs' x"
    by blast
  then show ?thesis
  proof cases
    case over
    let ?a' = "store ?a q (nd\<lparr>nvalue := uid\<rparr>)"
    let ?s = "s\<lparr>arena := ?a'\<rparr>"
    have i: "skl_inv ?s cs"
      using inv over(3) by (rule inv_assignValue)
    have k: "\<And>p. nkey ?a' p = nkey ?a p"
      using over(3) by (rule assignValue_data(1))
    have v: "\<And>p. nval ?a' p = (if p = q then uid else nval ?a p)"
      using over(3) by (rule assignValue_data(2))
    have kf: "nkey ?a' = nkey ?a"
      by (rule ext) (rule k)
    have st: "skl_sorted ?s cs"
      using so by (simp add: skl_sorted_def kf)
    have en: "entries ?a' (cs 0) = map (\<lambda>p. (nkey ?a p, if p = q then uid else nval ?a p)) (cs 0)"
      by (simp add: entries_def k v)
    have "distinct (map (nkey ?a) (cs 0))"
      using so by (rule sorted_keys_distinct)
    from map_of_update_value [OF this over(1), of uid "nval ?a"]
    have m: "map_of (entries ?a' (cs 0)) = (map_of (entries ?a (cs 0)))(key \<mapsto> uid)"
      unfolding en over(2) by (simp add: entries_def)
    have "capacity ?a' = capacity ?a"
      by (simp add: store_def)
    with i st m over show ?thesis
      by (intro disjI2 exI [of _ ?s] exI [of _ cs]) auto
  next
    case full
    from full(2) obtain us vs where sp: "cs 0 = us @ vs"
        "us \<noteq> [] \<longrightarrow> nkey ?a (last us) < key" "vs \<noteq> [] \<longrightarrow> key < nkey ?a (hd vs)"
      by (auto simp: splice_ok_def)
    have "sorted_wrt (<) (map (nkey ?a) (us @ vs))"
      using so [of 0] sp(1) by simp
    from sorted_split_absent(5) [OF this sp(2,3)] sp(1) full(1) show ?thesis
      by simp
  next
    case new
    let ?h = "randomHeight rnd"
    let ?a' = "arena s'"
    have h: "0 < nat ?h"
      using randomHeight_bounds [of rnd] by simp
    from new(2) have inv': "skl_inv s' cs'"
      and e: "head s' = head s" "ref s' = ref s" "capacity ?a' = capacity ?a"
      and lv: "\<And>L. if L < nat ?h
          then (\<exists>us vs. cs L = us @ vs \<and> cs' L = us @ x # vs \<and>
                  (us \<noteq> [] \<longrightarrow> nkey ?a (last us) < key) \<and>
                  (vs \<noteq> [] \<longrightarrow> key < nkey ?a (hd vs)))
          else cs' L = cs L"
      and old: "\<And>q. nodes ?a q \<noteq> None \<Longrightarrow> nkey ?a' q = nkey ?a q \<and> nval ?a' q = nval ?a q"
      and xk: "nkey ?a' x = take (length key mod 65536) key" and xv: "nval ?a' x = uid"
      unfolding put_new_def by blast+
    have xkey: "nkey ?a' x = key"
      using xk len by simp
    have mem: "\<And>L q. q \<in> set (cs L) \<Longrightarrow> nkey ?a' q = nkey ?a q \<and> nval ?a' q = nval ?a q"
      using inv_mem_allocated [OF inv] old by blast
    have st: "skl_sorted s' cs'"
      unfolding skl_sorted_def
    proof
      fix L
      show "sorted_wrt (<) (map (nkey ?a') (cs' L))"
      proof (cases "L < nat ?h")
        case True
        with lv [of L] obtain us vs where sp: "cs L = us @ vs" "cs' L = us @ x # vs"
            "us \<noteq> [] \<longrightarrow> nkey ?a (last us) < key" "vs \<noteq> [] \<longrightarrow> key < nkey ?a (hd vs)"
          by auto
        have "sorted_wrt (<) (map (nkey ?a) (us @ vs))"
          using so [of L] sp(1) by simp
        moreover have "\<forall>q \<in> set (us @ vs). nkey ?a' q = nkey ?a q"
          using mem [of _ L] sp(1) by simp
        ultimately have "sorted_wrt (<) (map (nkey ?a') (us @ x # vs))"
          using sp(3,4) xkey by (intro sorted_insert [where f = "nkey ?a" and k = key]) simp_all
        with sp(2) show ?thesis
          by simp
      next
        case False
        with lv [of L] have "cs' L = cs L"
          by simp
        moreover have "map (nkey ?a') (cs L) = map (nkey ?a) (cs L)"
          using mem [of _ L] by simp
        ultimately show ?thesis
          using so [of L] by (simp only:)
      qed
    qed
    from lv [of 0] h obtain us vs where sp: "cs 0 = us @ vs" "cs' 0 = us @ x # vs"
        "us \<noteq> [] \<longrightarrow> nkey ?a (last us) < key" "vs \<noteq> [] \<longrightarrow> key < nkey ?a (hd vs)"
      by auto
    have so0: "sorted_wrt (<) (map (nkey ?a) (us @ vs))"
      using so [of 0] sp(1) by simp
    have absent: "key \<notin> nkey ?a ` set (cs 0)"
      using sorted_split_absent(5) [OF so0 sp(3,4)] sp(1) by simp
    have "\<forall>u \<in> set us. nkey ?a u < key"
      using sorted_split_bounds [OF so0 sp(3,4)] by blast
    then have nk: "key \<notin> fst ` set (entries ?a us)"
      by (auto simp: entries_keys)
    have eu: "entries ?a' us = entries ?a us" and ev: "entries ?a' vs = entries ?a vs"
      using mem [of _ 0] sp(1) by (auto intro: entries_cong)
    have "entries ?a' (cs' 0) = entries ?a us @ (key, uid) # entries ?a vs"
      using eu ev xkey xv by (simp add: sp(2) entries_def)
    then have "map_of (entries ?a' (cs' 0)) = (map_of (entries ?a us @ entries ?a vs))(key \<mapsto> uid)"
      using map_of_insert [OF nk, of uid "entries ?a vs"] by (simp only:)
    also have "entries ?a us @ entries ?a vs = entries ?a (cs 0)"
      by (simp add: sp(1) entries_def)
    finally have m: "map_of (entries ?a' (cs' 0)) = (map_of (entries ?a (cs 0)))(key \<mapsto> uid)" .
    from new(1) inv' st m e absent show ?thesis
      by (intro disjI2 exI [of _ s'] exI [of _ cs']) simp
  qed
qed

lemma Puts_model:
  "skl_inv s cs \<Longrightarrow> skl_sorted s cs \<Longrightarrow> \<forall>op \<in> set ops. length (fst op) < 65536 \<Longrightarrow>
     Puts s ops = Some (Inr s') \<Longrightarrow>
     \<exists>cs'. skl_inv s' cs' \<and> skl_sorted s' cs' \<and>
       map_of (entries (arena s') (cs' 0)) =
         (\<lambda>k. case last_put ops k of Some w \<Rightarrow> Some w
               | None \<Rightarrow> map_of (entries (arena s) (cs 0)) k)"
proof (induction ops arbitrary: s cs)
  case Nil
  then show ?case
    by (auto intro!: exI [of _ cs])
next
  case (Cons op ops)
  obtain k v rnd where op: "op = (k, v, rnd)"
    by (cases op) auto
  have len: "length k < 65536"
    using Cons.prems(3) op by simp
  from Put_model [OF Cons.prems(1,2) len, of v rnd] Cons.prems(4) op
  obtain s1 cs1 where p: "Put s k v rnd = Some (Inr s1)" "skl_inv s1 cs1" "skl_sorted s1 cs1"
      "map_of (entries (arena s1) (cs1 0)) = (map_of (entries (arena s) (cs 0)))(k \<mapsto> v)"
    by auto
  from Cons.prems(4) op p(1) have r: "Puts s1 ops = Some (Inr s')"
    by simp
  have "\<forall>op \<in> set ops. length (fst op) < 65536"
    using Cons.prems(3) by simp
  from Cons.IH [OF p(2,3) this r] obtain cs' where c: "skl_inv s' cs'" "skl_sorted s' cs'"
      "map_of (entries (arena s') (cs' 0)) =
         (\<lambda>k. case last_put ops k of Some w \<Rightarrow> Some w
               | None \<Rightarrow> map_of (entries (arena s1) (cs1 0)) k)"
    by blast
  have "map_of (entries (arena s') (cs' 0)) =
         (\<lambda>k. case last_put (op # ops) k of Some w \<Rightarrow> Some w
               | None \<Rightarrow> map_of (entries (arena s) (cs 0)) k)"
    unfolding c(3) p(4) op by (auto simp: fun_eq_iff split: option.splits)
  with c(1,2) show ?case
    by blast
qed

lemma Puts_new:
  assumes "NewSkiplistMmap C = Inr s0" and "C < 2 ^ 32"
    and "\<forall>op \<in> set ops. length (fst op) < 65536" and "Puts s0 ops = Some (Inr s)"
  shows "\<exists>cs. skl_inv s cs \<and> skl_sorted s cs \<and> map_of (entries (arena s) (cs 0)) = last_put ops"
proof -
  from Puts_model [OF new_inv(1,2) [OF assms(1,2)] assms(3,4)]
  obtain cs where c: "skl_inv s cs" "skl_sorted s cs"
      "map_of (entries (arena s) (cs 0)) =
         (\<lambda>k. case last_put ops k of Some w \<Rightarrow> Some w
               | None \<Rightarrow> map_of (entries (arena s0) []) k)"
    by blast
  have "map_of (entries (arena s) (cs 0)) = last_put ops"
    unfolding c(3) by (auto simp: fun_eq_iff entries_def split: option.splits)
  with c(1,2) show ?thesis
    by blast
qed

section \<open>Get and the iterator on a sorted list\<close>

lemma map_of_entries_absent: "key \<notin> nkey a ` set qs \<Longrightarrow> map_of (entries a qs) key = None"
  by (simp add: map_of_eq_None_iff entries_keys)

lemma map_of_entries_present:
  assumes "\<forall>u \<in> set us. nkey a u \<noteq> nkey a q"
  shows "map_of (entries a (us @ q # vs)) (nkey a q) = Some (nval a q)"
proof -
  have "nkey a q \<notin> fst ` set (entries a us)"
    using assms by (auto simp: entries_keys)
  from map_of_insert [OF this, of "nval a q" "entries a vs"] show ?thesis
    by (simp add: entries_def)
qed

lemma Key_spec:
  assumes inv: "skl_inv s cs" and q: "q \<in> set (cs 0)"
  shows "Key s (it\<lparr>cur := q\<rparr>) = Inr (nkey (arena s) q)"
    and "Value s (it\<lparr>cur := q\<rparr>) = Inr (nval (arena s) q)"
    and "Valid (it\<lparr>cur := q\<rparr>)"
proof -
  from inv_mem_allocated [OF inv q] obtain nd where q0: "q \<noteq> 0" and nd: "nodes (arena s) q = Some nd"
    by blast
  show "Key s (it\<lparr>cur := q\<rparr>) = Inr (nkey (arena s) q)"
    using keyMmap_nkey [OF inv_wf [OF inv] nd] by (simp add: Key_def)
  show "Value s (it\<lparr>cur := q\<rparr>) = Inr (nval (arena s) q)"
    using getValue_nval [OF inv_wf [OF inv] nd] by (simp add: Value_def)
  show "Valid (it\<lparr>cur := q\<rparr>)"
    using q0 by (simp add: Valid_def)
qed

lemma Get_spec:
  assumes inv: "skl_inv s cs" and srt: "skl_sorted s cs"
  shows "Get s key =
    Some (Inr (case map_of (entries (arena s) (cs 0)) key of None \<Rightarrow> 0 | Some v \<Rightarrow> v))"
proof -
  let ?a = "arena s"
  let ?P = "\<lambda>q. nkey ?a q < key"
  define us where "us = takeWhile ?P (cs 0)"
  define vs where "vs = dropWhile ?P (cs 0)"
  have sp: "cs 0 = us @ vs"
    by (simp add: us_def vs_def)
  have u: "\<forall>u \<in> set us. nkey ?a u < key"
    unfolding us_def by (auto dest: set_takeWhileD)
  have so: "sorted_wrt (<) (map (nkey ?a) (us @ vs))"
    using srt sp by (rule sorted_level)
  have fn: "findNear s key False True = Some (Inr (hd0 vs, key \<in> nkey ?a ` set (cs 0)))"
    using findNear_spec [OF inv srt, of key False True] by (simp add: near_node_def vs_def)
  show ?thesis
  proof (cases vs)
    case Nil
    with u sp have "key \<notin> nkey ?a ` set (cs 0)"
      by auto
    then have "map_of (entries ?a (cs 0)) key = None"
      by (rule map_of_entries_absent)
    with fn Nil show ?thesis
      by (simp add: Get_def hd0_def)
  next
    case (Cons q vs')
    then have q: "q \<in> set (cs 0)"
      using sp by simp
    from inv_mem_allocated [OF inv q] obtain nd where q0: "q \<noteq> 0" and nd: "nodes ?a q = Some nd"
      by blast
    have km: "keyMmap ?a q = Inr (nkey ?a q)"
      using inv_wf [OF inv] nd by (rule keyMmap_nkey)
    have gv: "getValue ?a q = Inr (nval ?a q)"
      using inv_wf [OF inv] nd by (rule getValue_nval)
    have nl: "\<not> nkey ?a q < key"
      using Cons hd_dropWhile [of ?P "cs 0"] by (simp add: vs_def)
    show ?thesis
    proof (cases "key = nkey ?a q")
      case True
      have "\<forall>u \<in> set us. nkey ?a u \<noteq> nkey ?a q"
        using u True by auto
      from map_of_entries_present [OF this, of vs'] True sp Cons
      have "map_of (entries ?a (cs 0)) key = Some (nval ?a q)"
        by simp
      with fn Cons q0 km gv True show ?thesis
        by (simp add: Get_def hd0_def)
    next
      case False
      with nl have lt: "key < nkey ?a q"
        by simp
      have "us \<noteq> [] \<longrightarrow> nkey ?a (last us) < key"
        using u by simp
      moreover have "vs \<noteq> [] \<longrightarrow> key < nkey ?a (hd vs)"
        using Cons lt by simp
      ultimately have "key \<notin> nkey ?a ` set (us @ vs)"
        using sorted_split_absent(5) [OF so] by blast
      then have "map_of (entries ?a (cs 0)) key = None"
        using sp by (simp add: map_of_entries_absent)
      with fn Cons q0 km False show ?thesis
        by (simp add: Get_def hd0_def)
    qed
  qed
qed

lemma Seek_spec:
  assumes inv: "skl_inv s cs" and srt: "skl_sorted s cs"
  shows "Seek s it key = Some (Inr (it\<lparr>cur := near_node (arena s) key False True (cs 0)\<rparr>))"
    and "SeekForPrev s it key =
           Some (Inr (it\<lparr>cur := near_node (arena s) key True True (cs 0)\<rparr>))"
  by (simp_all add: Seek_def SeekForPrev_def findNear_spec [OF inv srt])

lemma SeekToLast_spec:
  assumes inv: "skl_inv s cs"
  shows "SeekToLast s it = Some (Inr (it\<lparr>cur := last0 (cs 0)\<rparr>))"
  by (simp add: SeekToLast_def findLast_spec [OF inv])

lemma Next_spec:
  assumes inv: "skl_inv s cs" and sp: "cs 0 = us @ q # vs"
  shows "Next s (it\<lparr>cur := q\<rparr>) = Inr (it\<lparr>cur := hd0 vs\<rparr>)"
proof -
  have mh: "0 < nat maxHeight"
    by (simp add: maxHeight_def)
  have "seg (arena s) 0 (head s) (us @ q # vs) 0"
    using inv_seg [OF inv mh] sp by simp
  then have "seg (arena s) 0 q vs 0"
    by (simp add: seg_append)
  then have q0: "q \<noteq> 0" and "nxt (arena s) 0 q = Some (hd0 vs)"
    using seg_start [of "arena s" 0 q vs 0] by (simp_all add: hd_append_zero)
  then have "getNext s q (int 0) = Inr (hd0 vs)"
    using mh by (rule getNext_nxt)
  with q0 show ?thesis
    by (simp add: Next_def Valid_def)
qed

lemma Prev_spec:
  assumes inv: "skl_inv s cs" and srt: "skl_sorted s cs" and sp: "cs 0 = us @ q # vs"
  shows "Prev s (it\<lparr>cur := q\<rparr>) = Some (Inr (it\<lparr>cur := last0 us\<rparr>))"
proof -
  let ?a = "arena s"
  have q: "q \<in> set (cs 0)"
    using sp by simp
  have so: "sorted_wrt (<) (map (nkey ?a) (us @ q # vs))"
    using srt sp by (rule sorted_level)
  have "near_node ?a (nkey ?a q) True False (cs 0) = last0 us"
    unfolding near_node_def by (subst sp) (simp add: sorted_split_present(1) [OF so])
  then have "findNear s (nkey ?a q) True False = Some (Inr (last0 us, False))"
    using findNear_spec [OF inv srt, of "nkey ?a q" True False] by simp
  then show ?thesis
    using Key_spec [OF inv q, of it] by (simp add: Prev_def)
qed

lemma entries_split:
  assumes "entries a qs = pre @ (k, v) # post"
  shows "\<exists>us q vs. qs = us @ q # vs \<and> entries a us = pre \<and> nkey a q = k \<and> nval a q = v \<and>
           entries a vs = post"
proof -
  from assms obtain us ws where e: "qs = us @ ws" "entries a us = pre" "entries a ws = (k, v) # post"
    unfolding entries_def by (auto simp: map_eq_append_conv)
  from e(3) obtain q vs where "ws = q # vs" "nkey a q = k" "nval a q = v" "entries a vs = post"
    unfolding entries_def by (auto simp: map_eq_Cons_conv)
  with e show ?thesis
    by blast
qed

section \<open>Claims about zeroOut and randomHeight\<close>



section \<open>Evaluation of the model on concrete inputs\<close>

lemmas evals = NewSkiplistMmap_def newArenaMmap_def newNodeMmap_def putNode_def putKey_def
  reserve_def getNode_def getNodeOffset_def getKey_def deref_def store_def getNextOffset_def
  setTower_def casNextOffset_def assignValue_def getValue_def keyMmap_def maxHeight_def
  heightIncrease_def headerSize_def offsetSize_def nodeAlign_def randomHeight_def getNext_def
  findNear_def findNear_loop.simps findSpliceForLevel.simps Put_search.simps Put_raise.simps
  Put_fill_def Put_link.simps Put_levels.simps Put_def findLast_loop.simps findLast_def
  Empty_def Get_def MemSize_def size_arena_def NewIterator_def Valid_def Key_def Value_def
  Next_def Prev_def Seek_def SeekForPrev_def SeekToFirst_def SeekToLast_def scan_loop.simps
  scan_def arr_get_def arr_set_def randomHeight_loop.simps

lemma case_sum_InrE: "(case x of Inl e \<Rightarrow> False | Inr y \<Rightarrow> P y) \<Longrightarrow> \<exists>y. x = Inr y \<and> P y"
  by (cases x) auto

lemma case_option_InrE:
  "(case x of Some (Inr y) \<Rightarrow> P y | _ \<Rightarrow> False) \<Longrightarrow> \<exists>y. x = Some (Inr y) \<and> P y"
  by (auto split: option.splits sum.splits)

section \<open>Heights\<close>

text \<open>
  C5: \<^verbatim>\<open>randomHeight\<close> returns a height \<open>h\<close> with \<open>1 \<le> h \<le> maxHeight\<close>, whatever the draws; and
  after any sequence of \<^verbatim>\<open>Put\<close> calls on a list made by \<^verbatim>\<open>NewSkiplistMmap\<close> the height of the
  list is between 1 and \<open>maxHeight\<close>, and every node that can be reached from the head is
  allocated, has its height field equal to the length of its tower, and that height is
  at most the height of the list.
\<close>

theorem height_bounds:
  "1 \<le> randomHeight rnd \<and> randomHeight rnd \<le> maxHeight \<and>
   (NewSkiplistMmap C = Inr s0 \<and> C < 2 ^ 32 \<and> Puts s0 ops = Some (Inr s) \<longrightarrow>
      1 \<le> height s \<and> height s \<le> maxHeight \<and>
      (\<forall>p. reach s p \<longrightarrow>
         (\<exists>nd. nodes (arena s) p = Some nd \<and> unat (nheight nd) = length (tower nd) \<and>
               int (length (tower nd)) \<le> height s)))"
proof (intro conjI impI)
  show "1 \<le> randomHeight rnd" "randomHeight rnd \<le> maxHeight"
    using randomHeight_bounds [of rnd] by simp_all
next
  assume a: "NewSkiplistMmap C = Inr s0 \<and> C < 2 ^ 32 \<and> Puts s0 ops = Some (Inr s)"
  then have "skl_inv s0 (\<lambda>_. [])"
    using new_inv(1) by blast
  from Puts_struct [OF this] a obtain cs where inv: "skl_inv s cs"
    by blast
  from inv_height [OF inv] show "1 \<le> height s" "height s \<le> maxHeight"
    by simp_all
  show "\<forall>p. reach s p \<longrightarrow>
         (\<exists>nd. nodes (arena s) p = Some nd \<and> unat (nheight nd) = length (tower nd) \<and>
               int (length (tower nd)) \<le> height s)"
  proof (intro allI impI)
    fix p
    assume "reach s p"
    then have p: "p \<in> set (cs 0)"
      using inv by (rule reach_base)
    from inv_mem_allocated [OF inv p] obtain nd where nd: "nodes (arena s) p = Some nd"
      by blast
    from inv_nodes_heights(1,3) [OF inv p nd] nd
    show "\<exists>nd. nodes (arena s) p = Some nd \<and> unat (nheight nd) = length (tower nd) \<and>
               int (length (tower nd)) \<le> height s"
      by simp
  qed
qed

theorem height_bounds_witness:
  "\<exists>s0 s p. NewSkiplistMmap 1048576 = Inr s0 \<and>
     Puts s0 [([98], 2, \<lambda>i. if i < 2 then 0 else 4294967295), ([97], 1, \<lambda>_. 4294967295)] =
       Some (Inr s) \<and>
     reach s p \<and> randomHeight (\<lambda>i. if i < 2 then 0 else 4294967295) = 3 \<and> height s = 3 \<and>
     height s \<le> maxHeight \<and>
     (\<exists>nd. nodes (arena s) p = Some nd \<and> int (length (tower nd)) \<le> height s)"
proof -
  let ?ops = "[([98], 2, \<lambda>i. if i < 2 then 0 else 4294967295), ([97], 1, \<lambda>_. 4294967295)]
    :: (8 word list \<times> 64 word \<times> (nat \<Rightarrow> 32 word)) list"
  have "case NewSkiplistMmap 1048576 of
          Inl e \<Rightarrow> False
        | Inr s0 \<Rightarrow>
            (case Puts s0 ?ops of
               Some (Inr s) \<Rightarrow>
                 height s = 3 \<and> (\<exists>p. p \<noteq> 0 \<and> getNext s (head s) 0 = Inr p)
             | _ \<Rightarrow> False)"
    by (simp add: evals)
  then obtain s0 s p where e: "NewSkiplistMmap 1048576 = Inr s0" "Puts s0 ?ops = Some (Inr s)"
      "height s = 3" "p \<noteq> 0" "getNext s (head s) 0 = Inr p"
    by (auto split: sum.splits option.splits)
  have r: "reach s p"
    using e(5,4) by (rule reach_head)
  have c: "(1048576 :: int) < 2 ^ 32"
    by simp
  have rh: "randomHeight (\<lambda>i. if i < 2 then 0 else 4294967295) = 3"
    by (simp add: evals)
  from height_bounds [of "\<lambda>i. if i < 2 then 0 else 4294967295" 1048576 s0 ?ops s] e(1,2) c r
  have "height s \<le> maxHeight \<and>
     (\<exists>nd. nodes (arena s) p = Some nd \<and> int (length (tower nd)) \<le> height s)"
    by blast
  with e r rh show ?thesis
    by blast
qed

section \<open>Empty\<close>

text \<open>
  C6: on a list made by \<^verbatim>\<open>NewSkiplistMmap\<close> and a sequence of \<^verbatim>\<open>Put\<close> calls, \<^verbatim>\<open>Empty\<close> returns
  true exactly when no node can be reached from the head: it returns true when there
  was no \<^verbatim>\<open>Put\<close> and false after any \<^verbatim>\<open>Put\<close>.
\<close>

theorem Empty_iff_no_node:
  assumes "NewSkiplistMmap C = Inr s0" and "C < 2 ^ 32" and "Puts s0 ops = Some (Inr s)"
  shows "Empty s = Some (Inr (ops = [])) \<and> ((ops = []) = (\<forall>p. \<not> reach s p))"
proof -
  have inv0: "skl_inv s0 (\<lambda>_. [])"
    using assms(1,2) by (rule new_inv(1))
  from Puts_struct [OF inv0 assms(3)] obtain cs where inv: "skl_inv s cs"
    and ne: "ops \<noteq> [] \<longrightarrow> cs 0 \<noteq> []" and em: "ops = [] \<longrightarrow> cs = (\<lambda>_. [])"
    by blast
  from ne em have "(cs 0 = []) = (ops = [])"
    by auto
  with Empty_spec [OF inv] reach_iff [OF inv] show ?thesis
    by auto
qed

theorem Empty_iff_no_node_witness:
  "\<exists>s0 s. NewSkiplistMmap 1048576 = Inr s0 \<and> Empty s0 = Some (Inr True) \<and>
     Puts s0 [([97], 7, \<lambda>_. 4294967295)] = Some (Inr s) \<and> Empty s = Some (Inr False) \<and>
     (\<exists>p. reach s p)"
proof -
  let ?ops = "[([97], 7, \<lambda>_. 4294967295)] :: (8 word list \<times> 64 word \<times> (nat \<Rightarrow> 32 word)) list"
  have "case NewSkiplistMmap 1048576 of
          Inl e \<Rightarrow> False
        | Inr s0 \<Rightarrow> (case Puts s0 ?ops of Some (Inr s) \<Rightarrow> True | _ \<Rightarrow> False)"
    by (simp add: evals)
  then obtain s0 s where e: "NewSkiplistMmap 1048576 = Inr s0" "Puts s0 ?ops = Some (Inr s)"
    by (auto split: sum.splits option.splits)
  have c: "(1048576 :: int) < 2 ^ 32"
    by simp
  have e0: "Puts s0 [] = Some (Inr s0)"
    by simp
  from Empty_iff_no_node [OF e(1) c e0] have "Empty s0 = Some (Inr True)"
    by simp
  moreover from Empty_iff_no_node [OF e(1) c e(2)]
  have "Empty s = Some (Inr False)" "\<exists>p. reach s p"
    by simp_all
  ultimately show ?thesis
    using e by blast
qed

section \<open>Sequences of Put calls\<close>

lemma dom_last_put: "dom (last_put ops) = fst ` set ops"
proof (induction ops)
  case Nil
  then show ?case by simp
next
  case (Cons op ops)
  obtain k v rnd where op: "op = (k, v, rnd)"
    by (cases op) auto
  have "dom (last_put (op # ops)) = insert k (dom (last_put ops))"
    unfolding op by (auto simp: dom_def split: option.splits if_splits)
  also have "\<dots> = insert k (fst ` set ops)"
    by (simp only: Cons.IH)
  also have "\<dots> = fst ` set (op # ops)"
    by (simp add: op)
  finally show ?case .
qed

lemma last_put_empty: "last_put ops = Map.empty \<longleftrightarrow> ops = []"
proof -
  have "dom (last_put ops) = {} \<longleftrightarrow> ops = []"
    by (simp add: dom_last_put)
  then show ?thesis
    by (simp only: dom_eq_empty_conv)
qed

lemma entries_empty: "map_of (entries a qs) = Map.empty \<longleftrightarrow> qs = []"
  by (cases qs) (auto simp: entries_def fun_eq_iff)

section \<open>Get\<close>

text \<open>
  C1, for keys shorter than 65536 bytes: after a sequence of \<^verbatim>\<open>Put\<close> calls on a list made by
  \<^verbatim>\<open>NewSkiplistMmap\<close>, \<^verbatim>\<open>Get\<close> returns, for every key, the value of the last \<^verbatim>\<open>Put\<close> with that
  key, and 0 for a key that was never put.
\<close>

theorem Get_last_put:
  assumes "NewSkiplistMmap C = Inr s0" and "C < 2 ^ 32"
    and "\<forall>op \<in> set ops. length (fst op) < 65536" and "Puts s0 ops = Some (Inr s)"
  shows "Get s key = Some (Inr (case last_put ops key of None \<Rightarrow> 0 | Some v \<Rightarrow> v))"
proof -
  from Puts_new [OF assms] obtain cs where c: "skl_inv s cs" "skl_sorted s cs"
      "map_of (entries (arena s) (cs 0)) = last_put ops"
    by blast
  from Get_spec [OF c(1,2), of key] c(3) show ?thesis
    by simp
qed

theorem Get_last_put_witness:
  "\<exists>s0 s. NewSkiplistMmap 1048576 = Inr s0 \<and>
     Puts s0 [([97], 7, \<lambda>_. 4294967295), ([98], 8, \<lambda>_. 0), ([97], 9, \<lambda>_. 0)] = Some (Inr s) \<and>
     Get s [97] = Some (Inr 9) \<and> Get s [98] = Some (Inr 8) \<and> Get s [99] = Some (Inr 0)"
proof -
  let ?ops = "[([97], 7, \<lambda>_. 4294967295), ([98], 8, \<lambda>_. 0), ([97], 9, \<lambda>_. 0)]
    :: (8 word list \<times> 64 word \<times> (nat \<Rightarrow> 32 word)) list"
  have "case NewSkiplistMmap 1048576 of
          Inl e \<Rightarrow> False
        | Inr s0 \<Rightarrow> (case Puts s0 ?ops of Some (Inr s) \<Rightarrow> True | _ \<Rightarrow> False)"
    by (simp add: evals)
  then obtain s0 s where e: "NewSkiplistMmap 1048576 = Inr s0" "Puts s0 ?ops = Some (Inr s)"
    by (auto split: sum.splits option.splits)
  have c: "(1048576 :: int) < 2 ^ 32"
    by simp
  have l: "\<forall>op \<in> set ?ops. length (fst op) < 65536"
    by simp
  note g = Get_last_put [OF e(1) c l e(2)]
  have "Get s [97] = Some (Inr 9)" "Get s [98] = Some (Inr 8)" "Get s [99] = Some (Inr 0)"
    using g [of "[97]"] g [of "[98]"] g [of "[99]"] by simp_all
  with e show ?thesis
    by blast
qed

text \<open>
  A key of 65536 bytes is stored with the key size \<^verbatim>\<open>uint16(65536) = 0\<close>: \<^verbatim>\<open>Get\<close> of that key
  returns 0, and \<^verbatim>\<open>Get\<close> of the empty key, which was never put, returns its value.
\<close>

lemma long_key_Get:
  "length k' = 65535 \<Longrightarrow>
   (case NewSkiplistMmap 1048576 of
      Inl e \<Rightarrow> False
    | Inr s0 \<Rightarrow>
        (case Puts s0 [(255 # k', 5, \<lambda>_. 4294967295)] of
           Some (Inr s) \<Rightarrow> Get s (255 # k') = Some (Inr 0) \<and> Get s [] = Some (Inr 5)
         | _ \<Rightarrow> False))"
  by (simp add: evals)

theorem Get_long_key_lost:
  "\<exists>s0 s. NewSkiplistMmap 1048576 = Inr s0 \<and>
     Puts s0 [(255 # replicate 65535 255, 5, \<lambda>_. 4294967295)] = Some (Inr s) \<and>
     length (255 # replicate 65535 (255 :: 8 word)) = 65536 \<and>
     Get s (255 # replicate 65535 255) = Some (Inr 0) \<and> Get s [] = Some (Inr 5)"
proof -
  have "length (replicate 65535 (255 :: 8 word)) = 65535"
    by simp
  from long_key_Get [OF this] show ?thesis
    by (auto split: sum.splits option.splits)
qed

section \<open>Iteration\<close>

text \<open>
  C2, for keys shorter than 65536 bytes: after a sequence of \<^verbatim>\<open>Put\<close> calls on a list made by
  \<^verbatim>\<open>NewSkiplistMmap\<close>, \<^verbatim>\<open>SeekToFirst\<close> followed by \<^verbatim>\<open>Next\<close> while the iterator is valid returns
  and ends with an invalid iterator; the keys it visits are strictly increasing, hence
  without duplicates, they are exactly the keys that were put, and each comes with the
  value of the last \<^verbatim>\<open>Put\<close> of its key.
\<close>

theorem scan_sorted:
  assumes "NewSkiplistMmap C = Inr s0" and "C < 2 ^ 32"
    and "\<forall>op \<in> set ops. length (fst op) < 65536" and "Puts s0 ops = Some (Inr s)"
  shows "\<exists>es it. scan s = Some (Inr (es, it)) \<and> \<not> Valid it \<and>
           sorted_wrt (<) (map fst es) \<and> distinct (map fst es) \<and>
           set (map fst es) = fst ` set ops \<and> map_of es = last_put ops"
proof -
  from Puts_new [OF assms] obtain cs where c: "skl_inv s cs" "skl_sorted s cs"
      "map_of (entries (arena s) (cs 0)) = last_put ops"
    by blast
  let ?es = "entries (arena s) (cs 0)"
  have k: "map fst ?es = map (nkey (arena s)) (cs 0)"
    by (simp add: entries_def comp_def)
  have so: "sorted_wrt (<) (map fst ?es)"
    unfolding k using c(2) by (simp add: skl_sorted_def)
  then have d: "distinct (map fst ?es)"
    unfolding k by (rule sorted_keys_distinct)
  have "set (map fst ?es) = dom (map_of ?es)"
    by (simp add: dom_map_of_conv_image_fst)
  then have st: "set (map fst ?es) = fst ` set ops"
    by (simp only: c(3) dom_last_put)
  have "\<not> Valid \<lparr>cur = 0\<rparr>"
    by (simp add: Valid_def)
  with scan_spec [OF c(1)] so d st c(3) show ?thesis
    by blast
qed

theorem scan_sorted_witness:
  "\<exists>s0 s es it. NewSkiplistMmap 1048576 = Inr s0 \<and>
     Puts s0 [([98], 2, \<lambda>i. if i < 2 then 0 else 4294967295), ([97], 1, \<lambda>_. 4294967295),
              ([99], 3, \<lambda>_. 0)] = Some (Inr s) \<and>
     scan s = Some (Inr (es, it)) \<and> \<not> Valid it \<and> sorted_wrt (<) (map fst es) \<and>
     distinct (map fst es) \<and> set (map fst es) = {[97], [98], [99]} \<and>
     map_of es [98] = Some 2"
proof -
  let ?ops = "[([98], 2, \<lambda>i. if i < 2 then 0 else 4294967295), ([97], 1, \<lambda>_. 4294967295),
               ([99], 3, \<lambda>_. 0)] :: (8 word list \<times> 64 word \<times> (nat \<Rightarrow> 32 word)) list"
  have "case NewSkiplistMmap 1048576 of
          Inl e \<Rightarrow> False
        | Inr s0 \<Rightarrow> (case Puts s0 ?ops of Some (Inr s) \<Rightarrow> True | _ \<Rightarrow> False)"
    by (simp add: evals)
  then obtain s0 s where e: "NewSkiplistMmap 1048576 = Inr s0" "Puts s0 ?ops = Some (Inr s)"
    by (auto split: sum.splits option.splits)
  have c: "(1048576 :: int) < 2 ^ 32"
    by simp
  have l: "\<forall>op \<in> set ?ops. length (fst op) < 65536"
    by simp
  from scan_sorted [OF e(1) c l e(2)] obtain es it where r: "scan s = Some (Inr (es, it))"
      "\<not> Valid it" "sorted_wrt (<) (map fst es)" "distinct (map fst es)"
      "set (map fst es) = fst ` set ?ops" "map_of es = last_put ?ops"
    by blast
  from r(5) have "set (map fst es) = {[97], [98], [99]}"
    by auto
  moreover from r(6) have "map_of es [98] = Some 2"
    by simp
  ultimately show ?thesis
    using e r(1-4) by blast
qed

text \<open>
  After a key of 65536 bytes the iteration is out of order: the key is stored behind
  \<open>[98]\<close> and reads back as the empty key, and the key that was put is not visited.
\<close>

lemma long_key_scan:
  "length k' = 65535 \<Longrightarrow>
   (case NewSkiplistMmap 1048576 of
      Inl e \<Rightarrow> False
    | Inr s0 \<Rightarrow>
        (case Puts s0 [([98], 1, \<lambda>_. 4294967295), (255 # k', 2, \<lambda>_. 4294967295)] of
           Some (Inr s) \<Rightarrow> scan s = Some (Inr ([([98], 1), ([], 2)], \<lparr>cur = 0\<rparr>))
         | _ \<Rightarrow> False))"
  by (simp add: evals)

theorem scan_long_key_unsorted:
  "\<exists>s0 s. NewSkiplistMmap 1048576 = Inr s0 \<and>
     Puts s0 [([98], 1, \<lambda>_. 4294967295), (255 # replicate 65535 255, 2, \<lambda>_. 4294967295)] =
       Some (Inr s) \<and>
     scan s = Some (Inr ([([98], 1), ([], 2)], \<lparr>cur = 0\<rparr>)) \<and>
     \<not> sorted_wrt (<) (map fst [([98 :: 8 word], 1 :: 64 word), ([], 2)])"
proof -
  have "length (replicate 65535 (255 :: 8 word)) = 65535"
    by simp
  from long_key_scan [OF this] show ?thesis
    by (auto split: sum.splits option.splits)
qed

section \<open>Overwriting a key\<close>

text \<open>
  C3, for keys shorter than 65536 bytes: in a list made by \<^verbatim>\<open>NewSkiplistMmap\<close> and a sequence
  of \<^verbatim>\<open>Put\<close> calls, a \<^verbatim>\<open>Put\<close> of a key that was put before returns, and the list it
  leaves differs from the one before only in the value word of one node, the node that
  holds the key: no node is allocated and \<^verbatim>\<open>MemSize\<close> is unchanged.
\<close>

theorem Put_present_in_place:
  assumes "NewSkiplistMmap C = Inr s0" and "C < 2 ^ 32"
    and "\<forall>op \<in> set ops. length (fst op) < 65536" and "Puts s0 ops = Some (Inr s)"
    and "key \<in> fst ` set ops"
  shows "\<exists>q nd s'. nodes (arena s) q = Some nd \<and> keyMmap (arena s) q = Inr key \<and>
           Put s key uid rnd = Some (Inr s') \<and>
           s' = s\<lparr>arena := (arena s)\<lparr>nodes := (nodes (arena s))(q \<mapsto> nd\<lparr>nvalue := uid\<rparr>)\<rparr>\<rparr> \<and>
           MemSize s' = MemSize s"
proof -
  from Puts_new [OF assms(1-4)] obtain cs where c: "skl_inv s cs" "skl_sorted s cs"
      "map_of (entries (arena s) (cs 0)) = last_put ops"
    by blast
  have "dom (map_of (entries (arena s) (cs 0))) = fst ` set ops"
    by (simp only: c(3) dom_last_put)
  then have pres: "key \<in> nkey (arena s) ` set (cs 0)"
    using assms(5) by (simp add: dom_map_of_conv_image_fst entries_keys)
  have len: "length key < 65536"
    using assms(3,5) by auto
  from Put_model [OF c(1,2) len, of uid rnd] pres
  obtain q nd where q: "q \<in> set (cs 0)" "nkey (arena s) q = key" "nodes (arena s) q = Some nd"
      "Put s key uid rnd = Some (Inr (s\<lparr>arena := store (arena s) q (nd\<lparr>nvalue := uid\<rparr>)\<rparr>))"
    by auto
  have "keyMmap (arena s) q = Inr key"
    using keyMmap_nkey [OF inv_wf [OF c(1)] q(3)] q(2) by simp
  with q(3,4) show ?thesis
    by (intro exI [of _ q] exI [of _ nd]) (simp add: store_def MemSize_def size_arena_def)
qed

theorem Put_present_in_place_witness:
  "\<exists>s0 s s'. NewSkiplistMmap 1048576 = Inr s0 \<and>
     Puts s0 [([97], 7, \<lambda>_. 4294967295), ([98], 8, \<lambda>_. 0)] = Some (Inr s) \<and>
     Put s [97] 9 (\<lambda>_. 0) = Some (Inr s') \<and> MemSize s' = MemSize s \<and>
     Get s [97] = Some (Inr 7) \<and> Get s' [97] = Some (Inr 9)"
proof -
  let ?ops = "[([97], 7, \<lambda>_. 4294967295), ([98], 8, \<lambda>_. 0)]
    :: (8 word list \<times> 64 word \<times> (nat \<Rightarrow> 32 word)) list"
  have "case NewSkiplistMmap 1048576 of
          Inl e \<Rightarrow> False
        | Inr s0 \<Rightarrow>
            (case Puts s0 ?ops of
               Some (Inr s) \<Rightarrow>
                 Get s [97] = Some (Inr 7) \<and>
                 (case Put s [97] 9 (\<lambda>_. 0) of
                    Some (Inr s') \<Rightarrow> Get s' [97] = Some (Inr 9)
                  | _ \<Rightarrow> False)
             | _ \<Rightarrow> False)"
    by (simp add: evals)
  from case_sum_InrE [OF this] obtain s0 where e1: "NewSkiplistMmap 1048576 = Inr s0"
    and "case Puts s0 ?ops of
           Some (Inr s) \<Rightarrow>
             Get s [97] = Some (Inr 7) \<and>
             (case Put s [97] 9 (\<lambda>_. 0) of
                Some (Inr s') \<Rightarrow> Get s' [97] = Some (Inr 9)
              | _ \<Rightarrow> False)
         | _ \<Rightarrow> False"
    by blast
  from case_option_InrE [OF this(2)] obtain s where e2: "Puts s0 ?ops = Some (Inr s)"
    and e3: "Get s [97] = Some (Inr 7)"
    and "case Put s [97] 9 (\<lambda>_. 0) of
           Some (Inr s') \<Rightarrow> Get s' [97] = Some (Inr 9)
         | _ \<Rightarrow> False"
    by blast
  from case_option_InrE [OF this(3)] obtain s1 where e4: "Put s [97] 9 (\<lambda>_. 0) = Some (Inr s1)"
    and e5: "Get s1 [97] = Some (Inr 9)"
    by blast
  note e = e1 e2 e3 e4 e5
  have c: "(1048576 :: int) < 2 ^ 32"
    by simp
  have l: "\<forall>op \<in> set ?ops. length (fst op) < 65536"
    by simp
  have k: "[97] \<in> fst ` set ?ops"
    by simp
  from Put_present_in_place [OF e(1) c l e(2) k, of 9 "\<lambda>_. 0"] e(4)
  have "MemSize s1 = MemSize s"
    by auto
  with e show ?thesis
    by blast
qed

text \<open>
  After a key of 65536 bytes the empty key is in the list, behind \<open>[98]\<close>; a \<^verbatim>\<open>Put\<close> of the
  empty key does not find it and allocates a second node.
\<close>

lemma long_key_Put:
  "length k' = 65535 \<Longrightarrow>
   (case NewSkiplistMmap 1048576 of
      Inl e \<Rightarrow> False
    | Inr s0 \<Rightarrow>
        (case Puts s0 [([98], 1, \<lambda>_. 4294967295), (255 # k', 2, \<lambda>_. 4294967295)] of
           Some (Inr s) \<Rightarrow>
             scan s = Some (Inr ([([98], 1), ([], 2)], \<lparr>cur = 0\<rparr>)) \<and>
             (case Put s [] 3 (\<lambda>_. 4294967295) of
                Some (Inr s') \<Rightarrow>
                  MemSize s < MemSize s' \<and>
                  scan s' = Some (Inr ([([], 3), ([98], 1), ([], 2)], \<lparr>cur = 0\<rparr>))
              | _ \<Rightarrow> False)
         | _ \<Rightarrow> False))"
  by (simp add: evals)

theorem Put_present_allocates:
  "\<exists>s0 s s'. NewSkiplistMmap 1048576 = Inr s0 \<and>
     Puts s0 [([98], 1, \<lambda>_. 4294967295), (255 # replicate 65535 255, 2, \<lambda>_. 4294967295)] =
       Some (Inr s) \<and>
     scan s = Some (Inr ([([98], 1), ([], 2)], \<lparr>cur = 0\<rparr>)) \<and>
     Put s [] 3 (\<lambda>_. 4294967295) = Some (Inr s') \<and> MemSize s < MemSize s' \<and>
     scan s' = Some (Inr ([([], 3), ([98], 1), ([], 2)], \<lparr>cur = 0\<rparr>))"
proof -
  have "length (replicate 65535 (255 :: 8 word)) = 65535"
    by simp
  from case_sum_InrE [OF long_key_Put [OF this]] obtain s0
    where e1: "NewSkiplistMmap 1048576 = Inr s0"
    and "case Puts s0 [([98], 1, \<lambda>_. 4294967295),
                       (255 # replicate 65535 255, 2, \<lambda>_. 4294967295)] of
           Some (Inr s) \<Rightarrow>
             scan s = Some (Inr ([([98], 1), ([], 2)], \<lparr>cur = 0\<rparr>)) \<and>
             (case Put s [] 3 (\<lambda>_. 4294967295) of
                Some (Inr s') \<Rightarrow>
                  MemSize s < MemSize s' \<and>
                  scan s' = Some (Inr ([([], 3), ([98], 1), ([], 2)], \<lparr>cur = 0\<rparr>))
              | _ \<Rightarrow> False)
         | _ \<Rightarrow> False"
    by blast
  from case_option_InrE [OF this(2)] obtain s
    where e2: "Puts s0 [([98], 1, \<lambda>_. 4294967295),
                        (255 # replicate 65535 255, 2, \<lambda>_. 4294967295)] = Some (Inr s)"
    and e3: "scan s = Some (Inr ([([98], 1), ([], 2)], \<lparr>cur = 0\<rparr>))"
    and "case Put s [] 3 (\<lambda>_. 4294967295) of
           Some (Inr s') \<Rightarrow>
             MemSize s < MemSize s' \<and>
             scan s' = Some (Inr ([([], 3), ([98], 1), ([], 2)], \<lparr>cur = 0\<rparr>))
         | _ \<Rightarrow> False"
    by blast
  from case_option_InrE [OF this(3)] obtain s'
    where "Put s [] 3 (\<lambda>_. 4294967295) = Some (Inr s')" "MemSize s < MemSize s'"
      "scan s' = Some (Inr ([([], 3), ([98], 1), ([], 2)], \<lparr>cur = 0\<rparr>))"
    by blast
  with e1 e2 e3 show ?thesis
    by blast
qed

section \<open>The empty key\<close>

text \<open>
  C8, for keys shorter than 65536 bytes: in a list made by \<^verbatim>\<open>NewSkiplistMmap\<close> and a sequence
  of \<^verbatim>\<open>Put\<close> calls in which the last \<^verbatim>\<open>Put\<close> of the empty key had the value \<open>v\<close>, \<^verbatim>\<open>Get\<close> of the
  empty key returns \<open>v\<close>, and \<^verbatim>\<open>SeekToFirst\<close> positions the iterator on a node that is not the
  head, with the empty key and the value \<open>v\<close>: the empty key is the smallest key.
\<close>

theorem empty_key_first:
  assumes "NewSkiplistMmap C = Inr s0" and "C < 2 ^ 32"
    and "\<forall>op \<in> set ops. length (fst op) < 65536" and "Puts s0 ops = Some (Inr s)"
    and "last_put ops [] = Some v"
  shows "Get s [] = Some (Inr v) \<and>
         (\<exists>it'. SeekToFirst s it = Inr it' \<and> Valid it' \<and> cur it' \<noteq> head s \<and>
                Key s it' = Inr [] \<and> Value s it' = Inr v)"
proof -
  from Puts_new [OF assms(1-4)] obtain cs where c: "skl_inv s cs" "skl_sorted s cs"
      "map_of (entries (arena s) (cs 0)) = last_put ops"
    by blast
  let ?a = "arena s"
  have g: "Get s [] = Some (Inr v)"
    using Get_spec [OF c(1,2), of "[]"] c(3) assms(5) by simp
  have "map_of (entries ?a (cs 0)) [] = Some v"
    using c(3) assms(5) by simp
  then have "([], v) \<in> set (entries ?a (cs 0))"
    by (rule map_of_SomeD)
  then obtain q where q: "q \<in> set (cs 0)" "nkey ?a q = []" "nval ?a q = v"
    by (auto simp: entries_def)
  then obtain p ps where ps: "cs 0 = p # ps"
    by (cases "cs 0") auto
  have so: "sorted_wrt (<) (map (nkey ?a) (p # ps))"
    using c(2) ps by (rule sorted_level)
  have "q = p"
  proof (rule ccontr)
    assume "q \<noteq> p"
    with q(1) ps have "q \<in> set ps"
      by simp
    with so have "nkey ?a p < nkey ?a q"
      by simp
    with q(2) show False
      by simp
  qed
  with q ps have p: "p \<in> set (cs 0)" "nkey ?a p = []" "nval ?a p = v"
    by simp_all
  have "SeekToFirst s it = Inr (it\<lparr>cur := p\<rparr>)"
    using SeekToFirst_spec [OF c(1), of it] ps by (simp add: hd0_def)
  moreover have "p \<noteq> head s"
    using inv_distinct [OF c(1), of 0] ps by auto
  ultimately show ?thesis
    using g Key_spec [OF c(1) p(1), of it] p(2,3) by simp
qed

theorem empty_key_first_witness:
  "\<exists>s0 s it'. NewSkiplistMmap 1048576 = Inr s0 \<and>
     Puts s0 [([98], 8, \<lambda>_. 0), ([], 5, \<lambda>_. 4294967295), ([97], 7, \<lambda>_. 0)] = Some (Inr s) \<and>
     Get s [] = Some (Inr 5) \<and> SeekToFirst s \<lparr>cur = 0\<rparr> = Inr it' \<and> Valid it' \<and>
     cur it' \<noteq> head s \<and> Key s it' = Inr [] \<and> Value s it' = Inr 5"
proof -
  let ?ops = "[([98], 8, \<lambda>_. 0), ([], 5, \<lambda>_. 4294967295), ([97], 7, \<lambda>_. 0)]
    :: (8 word list \<times> 64 word \<times> (nat \<Rightarrow> 32 word)) list"
  have "case NewSkiplistMmap 1048576 of
          Inl e \<Rightarrow> False
        | Inr s0 \<Rightarrow> (case Puts s0 ?ops of Some (Inr s) \<Rightarrow> True | _ \<Rightarrow> False)"
    by (simp add: evals)
  then obtain s0 s where e: "NewSkiplistMmap 1048576 = Inr s0" "Puts s0 ?ops = Some (Inr s)"
    by (auto split: sum.splits option.splits)
  have c: "(1048576 :: int) < 2 ^ 32"
    by simp
  have l: "\<forall>op \<in> set ?ops. length (fst op) < 65536"
    by simp
  have k: "last_put ?ops [] = Some 5"
    by simp
  from empty_key_first [OF e(1) c l e(2) k, of "\<lparr>cur = 0\<rparr>"] e show ?thesis
    by blast
qed

text \<open>
  With a key of 65536 bytes put at height 2 behind \<open>[98]\<close>, a \<^verbatim>\<open>Put\<close> of the empty key
  overwrites that node, found at level 1; \<^verbatim>\<open>SeekToFirst\<close> then stands on \<open>[98]\<close>, not on the
  empty key.
\<close>

lemma long_key_first:
  "length k' = 65535 \<Longrightarrow>
   (case NewSkiplistMmap 1048576 of
      Inl e \<Rightarrow> False
    | Inr s0 \<Rightarrow>
        (case Puts s0 [([98], 1, \<lambda>_. 4294967295),
                       (255 # k', 2, \<lambda>i. if i < 1 then 0 else 4294967295),
                       ([], 7, \<lambda>_. 4294967295)] of
           Some (Inr s) \<Rightarrow>
             (case SeekToFirst s \<lparr>cur = 0\<rparr> of
                Inr it' \<Rightarrow> Key s it' = Inr [98] \<and> Value s it' = Inr 1
              | _ \<Rightarrow> False) \<and>
             scan s = Some (Inr ([([98], 1), ([], 7)], \<lparr>cur = 0\<rparr>))
         | _ \<Rightarrow> False))"
  by (simp add: evals)

theorem empty_key_not_first:
  "\<exists>s0 s it'. NewSkiplistMmap 1048576 = Inr s0 \<and>
     Puts s0 [([98], 1, \<lambda>_. 4294967295),
              (255 # replicate 65535 255, 2, \<lambda>i. if i < 1 then 0 else 4294967295),
              ([], 7, \<lambda>_. 4294967295)] = Some (Inr s) \<and>
     SeekToFirst s \<lparr>cur = 0\<rparr> = Inr it' \<and> Key s it' = Inr [98] \<and> Value s it' = Inr 1 \<and>
     scan s = Some (Inr ([([98], 1), ([], 7)], \<lparr>cur = 0\<rparr>))"
proof -
  have "length (replicate 65535 (255 :: 8 word)) = 65535"
    by simp
  from case_sum_InrE [OF long_key_first [OF this]] obtain s0
    where e1: "NewSkiplistMmap 1048576 = Inr s0"
    and "case Puts s0 [([98], 1, \<lambda>_. 4294967295),
                       (255 # replicate 65535 255, 2, \<lambda>i. if i < 1 then 0 else 4294967295),
                       ([], 7, \<lambda>_. 4294967295)] of
           Some (Inr s) \<Rightarrow>
             (case SeekToFirst s \<lparr>cur = 0\<rparr> of
                Inr it' \<Rightarrow> Key s it' = Inr [98] \<and> Value s it' = Inr 1
              | _ \<Rightarrow> False) \<and>
             scan s = Some (Inr ([([98], 1), ([], 7)], \<lparr>cur = 0\<rparr>))
         | _ \<Rightarrow> False"
    by blast
  from case_option_InrE [OF this(2)] obtain s
    where e2: "Puts s0 [([98], 1, \<lambda>_. 4294967295),
                        (255 # replicate 65535 255, 2, \<lambda>i. if i < 1 then 0 else 4294967295),
                        ([], 7, \<lambda>_. 4294967295)] = Some (Inr s)"
    and e3: "scan s = Some (Inr ([([98], 1), ([], 7)], \<lparr>cur = 0\<rparr>))"
    and "case SeekToFirst s \<lparr>cur = 0\<rparr> of
           Inr it' \<Rightarrow> Key s it' = Inr [98] \<and> Value s it' = Inr 1
         | _ \<Rightarrow> False"
    by blast
  from case_sum_InrE [OF this(3)] obtain it'
    where "SeekToFirst s \<lparr>cur = 0\<rparr> = Inr it'" "Key s it' = Inr [98]" "Value s it' = Inr 1"
    by blast
  with e1 e2 e3 show ?thesis
    by blast
qed

end
